theory Spec2Isabelle
  imports Complex_Main "HOL-Library.Log_Nat" "HOL-Library.Word"
begin

section \<open>The master control plane of piccolo (src/src/master.cc)\<close>

text \<open>
  A shallow embedding of \<^verbatim>\<open>src/src/master.cc\<close>: the task and worker records, the
  shard assignment, the dispatcher, work stealing, and the barrier that drives a kernel
  epoch. Every definition names the C++ function it embeds.
\<close>

subsection \<open>Doubles\<close>

text \<open>
  A C++ \<^verbatim>\<open>double\<close> is an IEEE 754 binary64 value: a finite number, an infinity or
  a NaN. A finite value is held as the real number it denotes. Every arithmetic
  operation rounds its exact result to the nearest double, ties to the even significand
  (\<open>round_double\<close>): 53 significant bits, the least exponent of a unit in the last
  place is \<open>-1074\<close>, and a result of magnitude \<open>2 ^ 1024\<close> or more is an infinity.
  The sign of a zero is not held: a division of a nonzero number by zero takes the
  zero as \<^verbatim>\<open>+0.0\<close>, which is the zero an \<^verbatim>\<open>int\<close> converts to, and every divisor
  of the file is a converted \<^verbatim>\<open>int\<close> or \<^verbatim>\<open>average_size\<close>. Comparisons with a NaN
  are false.
\<close>

datatype double = Fin real | PInf | NInf | NaN

text \<open>The nearest integer, a tie going to the even one.\<close>

definition round_even :: "real \<Rightarrow> int" where
  "round_even x =
     (let f = \<lfloor>x\<rfloor>; d = x - of_int f
      in if d < 1 / 2 then f else if 1 / 2 < d then f + 1 else if even f then f else f + 1)"

text \<open>
  \<open>ilog2 x\<close> is the exponent of the leading bit of \<open>x \<noteq> 0\<close>, and \<open>quantum x\<close> the
  exponent of the unit in the last place of the doubles around \<open>x\<close>.
\<close>

definition ilog2 :: "real \<Rightarrow> int" where
  "ilog2 x =
     (if 1 \<le> \<bar>x\<bar> then bitlen \<lfloor>\<bar>x\<bar>\<rfloor> - 1
      else - bitlen (- \<lfloor>- (1 / \<bar>x\<bar>)\<rfloor> - 1))"

definition quantum :: "real \<Rightarrow> int" where
  "quantum x = max (ilog2 x - 52) (- 1074)"

definition round_scaled :: "real \<Rightarrow> int \<Rightarrow> int \<Rightarrow> double" where
  "round_scaled x q n =
     (if 1024 < q + bitlen \<bar>n\<bar> then (if 0 < x then PInf else NInf)
      else Fin (of_int n * 2 powi q))"

definition round_at :: "real \<Rightarrow> int \<Rightarrow> double" where
  "round_at x q = round_scaled x q (round_even (x / 2 powi q))"

definition round_double :: "real \<Rightarrow> double" where
  "round_double x = (if x = 0 then Fin 0 else round_at x (quantum x))"

text \<open>The conversion of an integer to \<^verbatim>\<open>double\<close>.\<close>

definition double_of_int :: "int \<Rightarrow> double" where
  "double_of_int i = round_double (of_int i)"

fun dneg :: "double \<Rightarrow> double" where
  "dneg (Fin a) = Fin (- a)"
| "dneg PInf = NInf"
| "dneg NInf = PInf"
| "dneg NaN = NaN"

fun dadd :: "double \<Rightarrow> double \<Rightarrow> double" where
  "dadd (Fin a) (Fin b) = round_double (a + b)"
| "dadd NaN _ = NaN"
| "dadd _ NaN = NaN"
| "dadd PInf NInf = NaN"
| "dadd NInf PInf = NaN"
| "dadd PInf _ = PInf"
| "dadd NInf _ = NInf"
| "dadd (Fin a) PInf = PInf"
| "dadd (Fin a) NInf = NInf"

definition dsub :: "double \<Rightarrow> double \<Rightarrow> double" where
  "dsub a b = dadd a (dneg b)"

text \<open>The sign of a double: \<open>Some True\<close> positive, \<open>Some False\<close> negative, \<open>None\<close> zero or NaN.\<close>

fun dsign :: "double \<Rightarrow> bool option" where
  "dsign (Fin a) = (if 0 < a then Some True else if a < 0 then Some False else None)"
| "dsign PInf = Some True"
| "dsign NInf = Some False"
| "dsign NaN = None"

definition dinf :: "bool \<Rightarrow> double" where
  "dinf positive = (if positive then PInf else NInf)"

fun dmul :: "double \<Rightarrow> double \<Rightarrow> double" where
  "dmul (Fin a) (Fin b) = round_double (a * b)"
| "dmul NaN _ = NaN"
| "dmul _ NaN = NaN"
| "dmul a b =
     (case (dsign a, dsign b) of
        (Some s, Some t) \<Rightarrow> dinf (s = t)
      | _ \<Rightarrow> NaN)"

fun ddiv :: "double \<Rightarrow> double \<Rightarrow> double" where
  "ddiv NaN _ = NaN"
| "ddiv _ NaN = NaN"
| "ddiv (Fin a) (Fin b) =
     (if b = 0 then (if a = 0 then NaN else dinf (0 < a)) else round_double (a / b))"
| "ddiv (Fin a) PInf = Fin 0"
| "ddiv (Fin a) NInf = Fin 0"
| "ddiv PInf (Fin b) = dinf (0 \<le> b)"
| "ddiv NInf (Fin b) = dinf (b < 0)"
| "ddiv _ _ = NaN"

text \<open>\<^verbatim>\<open>a < b\<close> on doubles.\<close>

fun dless :: "double \<Rightarrow> double \<Rightarrow> bool" where
  "dless (Fin a) (Fin b) = (a < b)"
| "dless NaN _ = False"
| "dless _ NaN = False"
| "dless NInf NInf = False"
| "dless NInf _ = True"
| "dless _ NInf = False"
| "dless PInf _ = False"
| "dless _ PInf = True"

text \<open>\<^verbatim>\<open>a <= b\<close> and \<^verbatim>\<open>a > b\<close> on doubles.\<close>

definition dle :: "double \<Rightarrow> double \<Rightarrow> bool" where
  "dle a b = (dless a b \<or> (a = b \<and> a \<noteq> NaN))"

definition dgreater :: "double \<Rightarrow> double \<Rightarrow> bool" where
  "dgreater a b = dless b a"

text \<open>\<^verbatim>\<open>std::max(a, b)\<close> is \<^verbatim>\<open>(a < b) ? b : a\<close>.\<close>

definition std_max :: "double \<Rightarrow> double \<Rightarrow> double" where
  "std_max a b = (if dless a b then b else a)"

subsection \<open>Task identities and task states\<close>

text \<open>\<^verbatim>\<open>struct Taskid\<close> and its \<^verbatim>\<open>operator<\<close>.\<close>

datatype Taskid = Taskid (table: int) (shard: int)

definition taskid_less :: "Taskid \<Rightarrow> Taskid \<Rightarrow> bool" where
  "taskid_less a b = (table a < table b \<or> (table a = table b \<and> shard a < shard b))"

text \<open>The order of \<^verbatim>\<open>std::set<Taskid>\<close> and \<^verbatim>\<open>std::map<Taskid, _>\<close> is \<^verbatim>\<open>operator<\<close>.\<close>

instantiation Taskid :: linorder
begin

definition less_Taskid :: "Taskid \<Rightarrow> Taskid \<Rightarrow> bool" where
  "less_Taskid a b = taskid_less a b"

definition less_eq_Taskid :: "Taskid \<Rightarrow> Taskid \<Rightarrow> bool" where
  "less_eq_Taskid a b = (taskid_less a b \<or> a = b)"

instance
proof
  fix x y z :: Taskid
  show "(x < y) = (x \<le> y \<and> \<not> y \<le> x)"
    by (cases x; cases y) (auto simp: less_Taskid_def less_eq_Taskid_def taskid_less_def)
  show "x \<le> x"
    by (simp add: less_eq_Taskid_def)
  show "x \<le> y \<Longrightarrow> y \<le> z \<Longrightarrow> x \<le> z"
    by (cases x; cases y; cases z) (auto simp: less_eq_Taskid_def taskid_less_def)
  show "x \<le> y \<Longrightarrow> y \<le> x \<Longrightarrow> x = y"
    by (cases x; cases y) (auto simp: less_eq_Taskid_def taskid_less_def)
  show "x \<le> y \<or> y \<le> x"
    by (cases x; cases y) (auto simp: less_eq_Taskid_def taskid_less_def)
qed

end

text \<open>
  \<^verbatim>\<open>struct TaskState\<close>. The fields \<^verbatim>\<open>id\<close> and \<^verbatim>\<open>size\<close> are named \<open>id_task\<close> and
  \<open>size_task\<close> here. The size is an \<^verbatim>\<open>int\<close> of 32 bits, read as a signed number
  (\<open>sint\<close>); its arithmetic wraps around, as on the machines the file is built for.
\<close>

datatype Status = PENDING | ACTIVE | FINISHED

record TaskState =
  id_task :: Taskid
  status :: Status
  size_task :: "32 word"
  stolen :: bool

text \<open>
  The constructor \<^verbatim>\<open>TaskState(Taskid id, int64_t size)\<close>: the initialiser
  \<^verbatim>\<open>size(size)\<close> keeps the low 32 bits of its argument.
\<close>

definition new_TaskState :: "Taskid \<Rightarrow> 64 word \<Rightarrow> TaskState" where
  "new_TaskState i sz = \<lparr>id_task = i, status = PENDING, size_task = ucast sz, stolen = False\<rparr>"

text \<open>\<^verbatim>\<open>TaskState::WeightCompare\<close>, the less-than handed to \<^verbatim>\<open>max_element\<close>.\<close>

definition WeightCompare :: "TaskState \<Rightarrow> TaskState \<Rightarrow> bool" where
  "WeightCompare a b =
     (if stolen a \<and> \<not> stolen b then True else sint (size_task a) < sint (size_task b))"

text \<open>
  \<^verbatim>\<open>std::max_element(first, last, comp)\<close>: the iterator \<^verbatim>\<open>result\<close> starts at the first
  element and moves to each later element that \<^verbatim>\<open>comp(*result, *first)\<close> puts above
  it. The model returns the position and the element, and \<open>None\<close> for the end iterator
  of an empty range.
\<close>

fun max_element_from :: "('a \<Rightarrow> 'a \<Rightarrow> bool) \<Rightarrow> nat \<Rightarrow> 'a \<Rightarrow> nat \<Rightarrow> 'a list \<Rightarrow> nat \<times> 'a" where
  "max_element_from cmp ri r i [] = (ri, r)"
| "max_element_from cmp ri r i (x # xs) =
     (if cmp r x then max_element_from cmp i x (Suc i) xs
      else max_element_from cmp ri r (Suc i) xs)"

definition max_element :: "('a \<Rightarrow> 'a \<Rightarrow> bool) \<Rightarrow> 'a list \<Rightarrow> (nat \<times> 'a) option" where
  "max_element cmp xs =
     (case xs of [] \<Rightarrow> None | x # rest \<Rightarrow> Some (max_element_from cmp 0 x 1 rest))"

subsection \<open>The task map of a worker\<close>

text \<open>
  \<^verbatim>\<open>typedef map<Taskid, TaskState*> TaskMap\<close>. The only insertion of the file is
  \<^verbatim>\<open>work[s->id] = s\<close>, so the key of every entry is the id of its task: the map is
  modelled as the list of its tasks in ascending order of id, which is also the order of
  the C++ iteration.
\<close>

type_synonym TaskMap = "TaskState list"

text \<open>\<^verbatim>\<open>work.find(id)\<close>: the entry of a key, \<open>None\<close> for \<^verbatim>\<open>work.end()\<close>.\<close>

fun map_find :: "Taskid \<Rightarrow> TaskMap \<Rightarrow> TaskState option" where
  "map_find k [] = None"
| "map_find k (t # ts) = (if id_task t = k then Some t else map_find k ts)"

text \<open>\<^verbatim>\<open>work[s->id] = s\<close>: replaces the entry of the key, or inserts it in key order.\<close>

fun map_put :: "TaskState \<Rightarrow> TaskMap \<Rightarrow> TaskMap" where
  "map_put s [] = [s]"
| "map_put s (t # ts) =
     (if taskid_less (id_task s) (id_task t) then s # t # ts
      else if taskid_less (id_task t) (id_task s) then t # map_put s ts
      else s # ts)"

text \<open>\<^verbatim>\<open>work.erase(it)\<close> for the iterator of key \<open>k\<close>.\<close>

definition map_erase :: "Taskid \<Rightarrow> TaskMap \<Rightarrow> TaskMap" where
  "map_erase k ts = filter (\<lambda>t. id_task t \<noteq> k) ts"

text \<open>
  An assignment through a \<^verbatim>\<open>TaskState*\<close> held by the map (\<^verbatim>\<open>t->status = ...\<close>,
  \<^verbatim>\<open>task->stolen = true\<close>): the entry of the task's key is updated in place.
\<close>

fun map_modify :: "Taskid \<Rightarrow> (TaskState \<Rightarrow> TaskState) \<Rightarrow> TaskMap \<Rightarrow> TaskMap" where
  "map_modify k f [] = []"
| "map_modify k f (t # ts) = (if id_task t = k then f t # ts else t # map_modify k f ts)"

subsection \<open>Tables and run descriptors\<close>

text \<open>
  Modelled from the spec: the declarations of the table type and of \<^verbatim>\<open>TableRegistry\<close>
  (\<^verbatim>\<open>piccolo/table.h\<close>) are not among the sources. The master reads two fields of a
  table, \<^verbatim>\<open>id\<close> and \<^verbatim>\<open>numShards\<close>; the spec takes \<^verbatim>\<open>num_shards\<close> as a count of shards,
  so it is a natural number here. \<^verbatim>\<open>TableRegistry::Map\<close> is a map from table ids to
  tables: an association list in key order.
\<close>

record Table =
  id_table :: int
  numShards :: nat

type_synonym TableMap = "(int \<times> Table) list"

text \<open>
  \<^verbatim>\<open>struct RunDescriptor\<close> (\<^verbatim>\<open>piccolo/master.h\<close>, not among the sources): the fields
  the master reads. \<^verbatim>\<open>table\<close> is a pointer: \<open>None\<close> is \<^verbatim>\<open>NULL\<close>. The fields are
  prefixed with \<open>rd\<close>.
\<close>

record RunDescriptor =
  rd_kernel :: string
  rd_method :: string
  rd_table :: "Table option"
  rd_shards :: "int list"

text \<open>The protocol buffer \<^verbatim>\<open>KernelRequest\<close>: the four fields \<^verbatim>\<open>get_next\<close> sets.\<close>

record KernelRequest =
  kr_kernel :: string
  kr_method :: string
  kr_table :: int
  kr_shard :: int

subsection \<open>Worker states\<close>

text \<open>
  \<^verbatim>\<open>struct WorkerState\<close>. \<^verbatim>\<open>typedef std::set<Taskid> ShardSet\<close> is a set; the field
  \<^verbatim>\<open>id\<close> is named \<open>id_worker\<close>.
\<close>

record WorkerState =
  work :: TaskMap
  shards :: "Taskid set"
  last_ping_time :: double
  id_worker :: int
  last_task_start :: double
  total_runtime :: double
  checkpointing :: bool

text \<open>The constructor \<^verbatim>\<open>WorkerState(int w_id)\<close>, with the reading of \<^verbatim>\<open>Now()\<close>.\<close>

definition new_WorkerState :: "double \<Rightarrow> int \<Rightarrow> WorkerState" where
  "new_WorkerState now w_id =
     \<lparr>work = [], shards = {}, last_ping_time = now, id_worker = w_id,
      last_task_start = Fin 0, total_runtime = Fin 0, checkpointing = False\<rparr>"

text \<open>
  \<^verbatim>\<open>alive()\<close>, over the file's static set \<^verbatim>\<open>dead_workers\<close>. The set is declared
  empty and the file only reads it (in \<^verbatim>\<open>alive()\<close>): it is empty in every run.
\<close>

definition alive :: "int set \<Rightarrow> WorkerState \<Rightarrow> bool" where
  "alive dead w = (id_worker w \<notin> dead)"

definition is_assigned :: "WorkerState \<Rightarrow> Taskid \<Rightarrow> bool" where
  "is_assigned w i = (map_find i (work w) \<noteq> None)"

definition ping :: "double \<Rightarrow> WorkerState \<Rightarrow> WorkerState" where
  "ping now w = w\<lparr>last_ping_time := now\<rparr>"

text \<open>
  The macro \<^verbatim>\<open>COUNT_TASKS(name, type)\<close>: \<^verbatim>\<open>num_name()\<close> and \<^verbatim>\<open>name()\<close> for a status.
\<close>

definition tasks_with :: "Status \<Rightarrow> WorkerState \<Rightarrow> TaskState list" where
  "tasks_with st w = filter (\<lambda>t. status t = st) (work w)"

definition num_with :: "Status \<Rightarrow> WorkerState \<Rightarrow> nat" where
  "num_with st w = length (filter (\<lambda>t. status t = st) (work w))"

definition pending :: "WorkerState \<Rightarrow> TaskState list" where
  "pending w = tasks_with PENDING w"

definition num_pending :: "WorkerState \<Rightarrow> nat" where
  "num_pending w = num_with PENDING w"

definition num_active :: "WorkerState \<Rightarrow> nat" where
  "num_active w = num_with ACTIVE w"

definition num_finished :: "WorkerState \<Rightarrow> nat" where
  "num_finished w = num_with FINISHED w"

definition num_assigned :: "WorkerState \<Rightarrow> nat" where
  "num_assigned w = length (work w)"

text \<open>\<^verbatim>\<open>WorkerState::PendingCompare\<close>.\<close>

definition PendingCompare :: "WorkerState \<Rightarrow> WorkerState \<Rightarrow> bool" where
  "PendingCompare a b = (num_pending a < num_pending b)"

text \<open>
  \<^verbatim>\<open>assign_shard(shard, should_service)\<close>: for every registered table that has the
  shard, the task id of the table and the shard is inserted into \<^verbatim>\<open>shards\<close> or erased
  from it. \<^verbatim>\<open>shards.erase(shards.find(t))\<close> of an absent id erases the end iterator,
  which is undefined behaviour: the model returns \<open>None\<close>.
\<close>

fun assign_shard_set :: "TableMap \<Rightarrow> int \<Rightarrow> bool \<Rightarrow> Taskid set \<Rightarrow> Taskid set option" where
  "assign_shard_set [] s should_service ss = Some ss"
| "assign_shard_set ((i, tb) # rest) s should_service ss =
     (if s < int (numShards tb) then
        (if should_service then assign_shard_set rest s should_service (insert (Taskid i s) ss)
         else if Taskid i s \<in> ss then assign_shard_set rest s should_service (ss - {Taskid i s})
         else None)
      else assign_shard_set rest s should_service ss)"

definition assign_shard :: "TableMap \<Rightarrow> int \<Rightarrow> bool \<Rightarrow> WorkerState \<Rightarrow> WorkerState option" where
  "assign_shard tables s should_service w =
     (case assign_shard_set tables s should_service (shards w) of
        None \<Rightarrow> None
      | Some ss \<Rightarrow> Some (w\<lparr>shards := ss\<rparr>))"

definition serves :: "WorkerState \<Rightarrow> Taskid \<Rightarrow> bool" where
  "serves w i = (i \<in> shards w)"

definition assign_task :: "TaskState \<Rightarrow> WorkerState \<Rightarrow> WorkerState" where
  "assign_task s w = w\<lparr>work := map_put s (work w)\<rparr>"

text \<open>
  \<^verbatim>\<open>remove_task(s)\<close> is \<^verbatim>\<open>work.erase(work.find(s->id))\<close>: undefined behaviour
  (\<open>None\<close>) when the map has no entry of that id.
\<close>

definition remove_task :: "TaskState \<Rightarrow> WorkerState \<Rightarrow> WorkerState option" where
  "remove_task s w =
     (case map_find (id_task s) (work w) of
        None \<Rightarrow> None
      | Some _ \<Rightarrow> Some (w\<lparr>work := map_erase (id_task s) (work w)\<rparr>))"

definition clear_tasks :: "WorkerState \<Rightarrow> WorkerState" where
  "clear_tasks w = w\<lparr>work := []\<rparr>"

text \<open>
  \<^verbatim>\<open>set_finished(id)\<close>: both \<^verbatim>\<open>CHECK\<close>s abort the process; the model returns the
  text of the failed check on the left.
\<close>

definition set_finished :: "Taskid \<Rightarrow> WorkerState \<Rightarrow> string + WorkerState" where
  "set_finished i w =
     (case map_find i (work w) of
        None \<Rightarrow> Inl ''work.find(id) != work.end()''
      | Some t \<Rightarrow>
          if status t = ACTIVE
          then Inr (w\<lparr>work := map_modify i (\<lambda>t. t\<lparr>status := FINISHED\<rparr>) (work w)\<rparr>)
          else Inl ''t->status == TaskState::ACTIVE'')"

text \<open>
  \<^verbatim>\<open>get_next(r, msg)\<close>: \<open>now\<close> is the reading of \<^verbatim>\<open>Now()\<close>. The result is the
  returned flag, the worker and the message. \<^verbatim>\<open>r.table->id\<close> of a null table is
  undefined behaviour (\<open>None\<close>).
\<close>

definition get_next ::
  "RunDescriptor \<Rightarrow> double \<Rightarrow> KernelRequest \<Rightarrow> WorkerState \<Rightarrow> (bool \<times> WorkerState \<times> KernelRequest) option" where
  "get_next r now msg w =
     (case max_element WeightCompare (pending w) of
        None \<Rightarrow> Some (False, w, msg)
      | Some (_, best) \<Rightarrow>
          (case rd_table r of
             None \<Rightarrow> None
           | Some tb \<Rightarrow>
               Some (True,
                 w\<lparr>work := map_modify (id_task best) (\<lambda>t. t\<lparr>status := ACTIVE\<rparr>) (work w),
                   last_task_start := now\<rparr>,
                 \<lparr>kr_kernel = rd_kernel r, kr_method = rd_method r,
                  kr_table = id_table tb, kr_shard = shard (id_task best)\<rparr>)))"

subsection \<open>Outcomes\<close>

text \<open>
  A call returns (\<open>Ok\<close>, with its value), aborts the process at a failed \<^verbatim>\<open>CHECK\<close>
  (\<open>Aborted\<close>, with the text of the check), reaches an operation whose behaviour C++
  leaves undefined (\<open>Undefined\<close>), or is still running when the fuel of the model is
  used up (\<open>OutOfFuel\<close>). Each outcome carries the state it was reached in.
\<close>

datatype ('a, 's) result = Ok 'a 's | Aborted string 's | Undefined 's | OutOfFuel 's

definition rbind :: "('a, 's) result \<Rightarrow> ('a \<Rightarrow> 's \<Rightarrow> ('b, 's) result) \<Rightarrow> ('b, 's) result" where
  "rbind r f =
     (case r of
        Ok a s \<Rightarrow> f a s
      | Aborted e s \<Rightarrow> Aborted e s
      | Undefined s \<Rightarrow> Undefined s
      | OutOfFuel s \<Rightarrow> OutOfFuel s)"

fun state_of :: "('a, 's) result \<Rightarrow> 's" where
  "state_of (Ok a s) = s"
| "state_of (Aborted e s) = s"
| "state_of (Undefined s) = s"
| "state_of (OutOfFuel s) = s"

fun is_Ok :: "('a, 's) result \<Rightarrow> bool" where
  "is_Ok (Ok a s) = True"
| "is_Ok _ = False"

fun returned :: "('a, 's) result \<Rightarrow> 'a option" where
  "returned (Ok a s) = Some a"
| "returned _ = None"

subsection \<open>The master\<close>

text \<open>
  The messages the master sends. \<^verbatim>\<open>RUN_KERNEL\<close> carries the rank it is sent to
  (\<^verbatim>\<open>w.id + 1\<close>); \<^verbatim>\<open>SHARD_ASSIGNMENT\<close> carries the triples
  \<^verbatim>\<open>(new_worker, table, shard)\<close> of the request.
\<close>

datatype message =
    RUN_KERNEL int KernelRequest
  | SHARD_ASSIGNMENT "(nat \<times> int \<times> int) list"
  | WORKER_FLUSH
  | WORKER_APPLY

text \<open>
  The protocol buffers \<^verbatim>\<open>MethodStats\<close>, \<^verbatim>\<open>KernelDone\<close> and \<^verbatim>\<open>FlushResponse\<close>:
  the fields the master reads and writes. \<open>kd_shards\<close> holds the table id of each
  \<^verbatim>\<open>ShardInfo\<close> of the message.
\<close>

record MethodStats =
  calls :: int
  shard_time :: double
  shard_calls :: int
  total_time :: double

definition default_MethodStats :: MethodStats where
  "default_MethodStats = \<lparr>calls = 0, shard_time = Fin 0, shard_calls = 0, total_time = Fin 0\<rparr>"

record KernelDone =
  kd_kernel :: KernelRequest
  kd_shards :: "int list"

text \<open>
  What the master reads from outside, by the number of the reading: the \<open>k\<close>-th call
  of \<^verbatim>\<open>Now()\<close>, the \<open>k\<close>-th \<^verbatim>\<open>TryRead\<close> of a \<^verbatim>\<open>KERNEL_DONE\<close> (\<open>None\<close>: no
  message is there; otherwise the rank of the sender and the message) and the \<open>k\<close>-th
  \<^verbatim>\<open>TryRead\<close> of a \<^verbatim>\<open>FLUSH_RESPONSE\<close> (the rank of the sender and
  \<^verbatim>\<open>updatesdone\<close>).
\<close>

record Env =
  clock :: "nat \<Rightarrow> real"
  kernel_done_in :: "nat \<Rightarrow> (int \<times> KernelDone) option"
  flush_response_in :: "nat \<Rightarrow> (int \<times> int) option"

text \<open>
  The fields of \<^verbatim>\<open>class Master\<close> (their trailing underscores dropped), with the state
  the methods reach through globals: the static set \<^verbatim>\<open>dead_workers\<close>, the flag
  \<^verbatim>\<open>FLAGS_work_stealing\<close>, the kernel registry (a kernel name to the method names of
  its \<^verbatim>\<open>KernelInfo\<close>, \<open>None\<close> for a null pointer or an absent name) and the
  network (\<open>sent\<close>: the messages sent so far). \<^verbatim>\<open>method_stats_[key]\<close> of an absent
  key is a default \<^verbatim>\<open>MethodStats\<close>: the map is a total function. \<open>n_now\<close>,
  \<open>n_done\<close> and \<open>n_flush\<close> count the readings taken from the environment, and
  \<open>steal_attempts\<close> is a history variable: the \<^verbatim>\<open>idle_worker\<close> arguments of the
  calls of \<^verbatim>\<open>steal_work\<close> that \<^verbatim>\<open>barrier\<close> has made.
\<close>

record Master =
  workers :: "WorkerState list"
  tables :: TableMap
  dead_workers :: "int set"
  FLAGS_work_stealing :: bool
  kernels :: "string \<Rightarrow> string list option"
  kernel_epoch :: int
  finished :: nat
  dispatched :: nat
  shards_assigned :: bool
  current_run :: RunDescriptor
  current_run_start :: double
  method_stats :: "string \<Rightarrow> MethodStats"
  sent :: "message list"
  n_now :: nat
  n_done :: nat
  n_flush :: nat
  steal_attempts :: "int list"

definition Now :: "Env \<Rightarrow> Master \<Rightarrow> double \<times> Master" where
  "Now env m = (Fin (clock env (n_now m)), m\<lparr>n_now := Suc (n_now m)\<rparr>)"

text \<open>\<^verbatim>\<open>workers_[i]\<close> for an \<^verbatim>\<open>int i\<close>: \<open>None\<close> outside the vector.\<close>

definition at_index :: "'a list \<Rightarrow> int \<Rightarrow> nat option" where
  "at_index xs i = (if 0 \<le> i \<and> i < int (length xs) then Some (nat i) else None)"

text \<open>\<^verbatim>\<open>Master::worker_for_shard\<close>: the position of the first worker that serves the shard.\<close>

fun first_index :: "('a \<Rightarrow> bool) \<Rightarrow> 'a list \<Rightarrow> nat option" where
  "first_index P [] = None"
| "first_index P (x # xs) = (if P x then Some 0 else map_option Suc (first_index P xs))"

definition worker_for_shard :: "Master \<Rightarrow> int \<Rightarrow> int \<Rightarrow> nat option" where
  "worker_for_shard m tb sh = first_index (\<lambda>w. serves w (Taskid tb sh)) (workers m)"

text \<open>
  The loop of \<^verbatim>\<open>Master::assign_worker\<close> that looks for the alive worker with the
  fewest shards; \<open>best\<close> is \<open>None\<close> for \<^verbatim>\<open>NULL\<close>.
\<close>

fun best_loop :: "int set \<Rightarrow> WorkerState list \<Rightarrow> nat list \<Rightarrow> nat option \<Rightarrow> nat option" where
  "best_loop dead ws [] best = best"
| "best_loop dead ws (i # rest) best =
     best_loop dead ws rest
       (if alive dead (ws ! i) \<and>
           (case best of None \<Rightarrow> True | Some b \<Rightarrow> card (shards (ws ! i)) < card (shards (ws ! b)))
        then Some i else best)"

text \<open>\<^verbatim>\<open>Master::assign_worker\<close>; the value is the position of the returned worker.\<close>

definition assign_worker :: "int \<Rightarrow> int \<Rightarrow> Master \<Rightarrow> (nat, Master) result" where
  "assign_worker tb sh m =
     (case worker_for_shard m tb sh of
        Some i \<Rightarrow>
          Ok i (m\<lparr>workers := (workers m)[i := assign_task (new_TaskState (Taskid tb sh) 1) (workers m ! i)]\<rparr>)
      | None \<Rightarrow>
          (case best_loop (dead_workers m) (workers m) [0..<length (workers m)] None of
             None \<Rightarrow> Aborted ''Ran out of workers!  Increase the number of partitions per worker!'' m
           | Some b \<Rightarrow>
               if \<not> alive (dead_workers m) (workers m ! b) then Aborted ''best->alive()'' m
               else
                 (case assign_shard (tables m) sh True (workers m ! b) of
                    None \<Rightarrow> Undefined m
                  | Some w \<Rightarrow>
                      Ok b (m\<lparr>workers := (workers m)[b := assign_task (new_TaskState (Taskid tb sh) 1) w]\<rparr>))))"

text \<open>
  \<^verbatim>\<open>Master::send_table_assignments\<close>: one triple for every shard of every worker, the
  shards of a worker in the order of \<^verbatim>\<open>Taskid::operator<\<close>.
\<close>

definition assignments_of :: "nat \<Rightarrow> WorkerState \<Rightarrow> (nat \<times> int \<times> int) list" where
  "assignments_of i w = map (\<lambda>j. (i, table j, shard j)) (sorted_list_of_set (shards w))"

definition send_table_assignments :: "Master \<Rightarrow> Master" where
  "send_table_assignments m =
     m\<lparr>sent := sent m @
        [SHARD_ASSIGNMENT (concat (map (\<lambda>i. assignments_of i (workers m ! i)) [0..<length (workers m)]))]\<rparr>"

subsection \<open>Work stealing\<close>

text \<open>
  The estimates of \<^verbatim>\<open>Master::steal_work\<close>: \<^verbatim>\<open>average_size\<close> adds 1 for every shard
  of the table and divides by the number of shards; \<^verbatim>\<open>move_cost\<close> and \<^verbatim>\<open>eta\<close> as
  the code computes them. In \<^verbatim>\<open>2 * task->size * avg_completion_time / average_size\<close>
  the product \<^verbatim>\<open>2 * task->size\<close> is a product of two \<^verbatim>\<open>int\<close>s; it is then converted
  to \<^verbatim>\<open>double\<close>, multiplied and divided, each with its rounding.
\<close>

definition average_size :: "nat \<Rightarrow> double" where
  "average_size n = ddiv (foldl (\<lambda>a _. dadd a (Fin 1)) (Fin 0) [0..<n]) (double_of_int (int n))"

definition move_cost :: "TaskState \<Rightarrow> double \<Rightarrow> double \<Rightarrow> double" where
  "move_cost task avg_completion_time avg_size =
     std_max (Fin 1)
       (ddiv (dmul (double_of_int (sint (2 * size_task task))) avg_completion_time) avg_size)"

definition eta :: "TaskState list \<Rightarrow> double \<Rightarrow> double \<Rightarrow> double" where
  "eta ps avg_completion_time avg_size =
     foldl (\<lambda>e p. dadd e (std_max (Fin 1)
        (ddiv (dmul (double_of_int (sint (size_task p))) avg_completion_time) avg_size))) (Fin 0) ps"

text \<open>
  The migration at the end of \<^verbatim>\<open>steal_work\<close>, from the worker at \<open>s\<close> to the worker
  at \<open>d\<close>: the five statements after the log line, each on the workers as the one
  before left them.
\<close>

definition migrate :: "nat \<Rightarrow> nat \<Rightarrow> TaskState \<Rightarrow> Master \<Rightarrow> (bool, Master) result" where
  "migrate s d task m =
     (let tid = id_task task;
          ws0 = (workers m)[s := (workers m ! s)\<lparr>work :=
                   map_modify tid (\<lambda>t. t\<lparr>stolen := True\<rparr>) (work (workers m ! s))\<rparr>]
      in case assign_shard (tables m) (shard tid) True (ws0 ! d) of
           None \<Rightarrow> Undefined (m\<lparr>workers := ws0\<rparr>)
         | Some wd \<Rightarrow>
             let ws1 = ws0[d := wd]
             in case assign_shard (tables m) (shard tid) False (ws1 ! s) of
                  None \<Rightarrow> Undefined (m\<lparr>workers := ws1\<rparr>)
                | Some wsrc \<Rightarrow>
                    let ws2 = ws1[s := wsrc]
                    in case remove_task (task\<lparr>stolen := True\<rparr>) (ws2 ! s) of
                         None \<Rightarrow> Undefined (m\<lparr>workers := ws2\<rparr>)
                       | Some wsrc' \<Rightarrow>
                           let ws3 = ws2[s := wsrc']
                           in Ok True (m\<lparr>workers :=
                                ws3[d := assign_task (task\<lparr>stolen := True\<rparr>) (ws3 ! d)]\<rparr>))"

text \<open>\<^verbatim>\<open>Master::steal_work\<close>.\<close>

definition steal_work :: "RunDescriptor \<Rightarrow> int \<Rightarrow> double \<Rightarrow> Master \<Rightarrow> (bool, Master) result" where
  "steal_work r idle_worker avg_completion_time m =
     (if \<not> FLAGS_work_stealing m then Ok False m
      else case at_index (workers m) idle_worker of
        None \<Rightarrow> Undefined m
      | Some d \<Rightarrow>
          if \<not> alive (dead_workers m) (workers m ! d) then Ok False m
          else case max_element PendingCompare (workers m) of
            None \<Rightarrow> Undefined m
          | Some (s, src) \<Rightarrow>
              if num_pending src = 0 then Ok False m
              else case max_element WeightCompare (pending src) of
                None \<Rightarrow> Undefined m
              | Some (_, task) \<Rightarrow>
                  if stolen task then Ok False m
                  else case rd_table r of
                    None \<Rightarrow> Undefined m
                  | Some tb \<Rightarrow>
                      if dle (eta (pending src) avg_completion_time (average_size (numShards tb)))
                             (move_cost task avg_completion_time (average_size (numShards tb)))
                      then Ok False m
                      else migrate s d task m)"

subsection \<open>Assignment of tables and tasks\<close>

text \<open>The loop \<^verbatim>\<open>for (j ...) assign_worker(table, j)\<close>; the returned worker is dropped.\<close>

fun assign_workers :: "int \<Rightarrow> int list \<Rightarrow> Master \<Rightarrow> (unit, Master) result" where
  "assign_workers tb [] m = Ok () m"
| "assign_workers tb (j # js) m = rbind (assign_worker tb j m) (\<lambda>_ m'. assign_workers tb js m')"

text \<open>\<^verbatim>\<open>Master::assign_tables\<close>.\<close>

fun assign_tables_loop :: "TableMap \<Rightarrow> Master \<Rightarrow> (unit, Master) result" where
  "assign_tables_loop [] m = Ok () m"
| "assign_tables_loop ((i, tb) # rest) m =
     rbind (assign_workers i (map int [0..<numShards tb]) m) (\<lambda>_ m'. assign_tables_loop rest m')"

definition assign_tables :: "Master \<Rightarrow> (unit, Master) result" where
  "assign_tables m = assign_tables_loop (tables m) (m\<lparr>shards_assigned := True\<rparr>)"

text \<open>
  \<^verbatim>\<open>Master::assign_tasks\<close>: \<^verbatim>\<open>r.table->id\<close> is read for the first shard of the list,
  and is undefined for a null table.
\<close>

definition assign_tasks :: "RunDescriptor \<Rightarrow> int list \<Rightarrow> Master \<Rightarrow> (unit, Master) result" where
  "assign_tasks r shs m =
     (let m1 = m\<lparr>workers := map clear_tasks (workers m)\<rparr>
      in case shs of
           [] \<Rightarrow> Ok () m1
         | _ # _ \<Rightarrow>
             (case rd_table r of
                None \<Rightarrow> Undefined m1
              | Some tb \<Rightarrow> assign_workers (id_table tb) shs m1))"

subsection \<open>Dispatch and reaping\<close>

definition default_KernelRequest :: KernelRequest where
  "default_KernelRequest = \<lparr>kr_kernel = [], kr_method = [], kr_table = 0, kr_shard = 0\<rparr>"

text \<open>
  \<^verbatim>\<open>Master::dispatch_work\<close>: the loop over the workers, with \<^verbatim>\<open>num_dispatched\<close> and
  the request \<^verbatim>\<open>w_req\<close> that the iterations share.
\<close>

fun dispatch_loop ::
  "Env \<Rightarrow> RunDescriptor \<Rightarrow> nat list \<Rightarrow> nat \<Rightarrow> KernelRequest \<Rightarrow> Master \<Rightarrow> (nat, Master) result" where
  "dispatch_loop env r [] num_dispatched w_req m = Ok num_dispatched m"
| "dispatch_loop env r (i # rest) num_dispatched w_req m =
     (if num_pending (workers m ! i) > 0 \<and> num_active (workers m ! i) = 0 then
        (case Now env m of
           (now, m1) \<Rightarrow>
             (case get_next r now w_req (workers m ! i) of
                None \<Rightarrow> Undefined m
              | Some (_, w, req) \<Rightarrow>
                  dispatch_loop env r rest (Suc num_dispatched) req
                    (m1\<lparr>workers := (workers m1)[i := w],
                        sent := sent m1 @ [RUN_KERNEL (id_worker w + 1) req]\<rparr>)))
      else dispatch_loop env r rest num_dispatched w_req m)"

definition dispatch_work :: "Env \<Rightarrow> RunDescriptor \<Rightarrow> Master \<Rightarrow> (nat, Master) result" where
  "dispatch_work env r m = dispatch_loop env r [0..<length (workers m)] 0 default_KernelRequest m"

text \<open>The key \<^verbatim>\<open>kernel + ":" + method\<close> of \<^verbatim>\<open>method_stats_\<close>.\<close>

definition stats_key :: "RunDescriptor \<Rightarrow> string" where
  "stats_key r = rd_kernel r @ '':'' @ rd_method r"

text \<open>
  Modelled from the spec: \<^verbatim>\<open>updatePartitions\<close> (\<^verbatim>\<open>piccolo/table.h\<close>) is not among
  the sources. It applies the partition metadata of a \<^verbatim>\<open>ShardInfo\<close> to its table, and
  changes neither the id nor the number of shards. \<^verbatim>\<open>tables_[si.table()]\<close> of an
  unregistered table is a null pointer.
\<close>

definition has_table :: "TableMap \<Rightarrow> int \<Rightarrow> bool" where
  "has_table tbs i = (map_of tbs i \<noteq> None)"

text \<open>
  \<^verbatim>\<open>Master::reap_one_task\<close>: the value is the returned \<^verbatim>\<open>w_id\<close>, or \<open>-1\<close> when no
  message was there.
\<close>

definition reap_one_task :: "Env \<Rightarrow> Master \<Rightarrow> (int, Master) result" where
  "reap_one_task env m =
     (case kernel_done_in env (n_done m) of
        None \<Rightarrow> Ok (- 1) (m\<lparr>n_done := Suc (n_done m)\<rparr>)
      | Some (src, done_msg) \<Rightarrow>
          (let m0 = m\<lparr>n_done := Suc (n_done m)\<rparr>;
               w_id = src - 1
           in case at_index (workers m0) w_id of
                None \<Rightarrow> Undefined m0
              | Some i \<Rightarrow>
                  if \<not> list_all (has_table (tables m0)) (kd_shards done_msg) then Undefined m0
                  else
                    (case set_finished
                            (Taskid (kr_table (kd_kernel done_msg)) (kr_shard (kd_kernel done_msg)))
                            (workers m0 ! i) of
                       Inl e \<Rightarrow> Aborted e m0
                     | Inr w \<Rightarrow>
                         (case Now env m0 of (t1, m1) \<Rightarrow>
                          case Now env m1 of (t2, m2) \<Rightarrow>
                          case Now env m2 of (t3, m3) \<Rightarrow>
                            (let w1 = w\<lparr>total_runtime :=
                                        dadd (total_runtime w) (dsub t1 (last_task_start w))\<rparr>;
                                 key = stats_key (current_run m3);
                                 ms = method_stats m3 key;
                                 ms1 = ms\<lparr>shard_time := dsub (dadd (shard_time ms) t2) (last_task_start w1),
                                          shard_calls := shard_calls ms + 1\<rparr>
                             in Ok w_id (m3\<lparr>workers := (workers m3)[i := ping t3 w1],
                                           method_stats := (method_stats m3)(key := ms1)\<rparr>))))))"

subsection \<open>The barrier\<close>

text \<open>
  \<^verbatim>\<open>WorkerState::idle_time\<close>: zero unless every task of the worker is finished;
  \<^verbatim>\<open>Now()\<close> is read in the second case only.
\<close>

definition idle_time :: "Env \<Rightarrow> WorkerState \<Rightarrow> Master \<Rightarrow> double \<times> Master" where
  "idle_time env w m =
     (if num_finished w \<noteq> length (work w) then (Fin 0, m)
      else case Now env m of (now, m1) \<Rightarrow> (dsub now (last_ping_time w), m1))"

text \<open>
  The condition of the stealing loop of \<^verbatim>\<open>Master::barrier\<close> for the worker at
  \<open>i\<close>: \<^verbatim>\<open>mstats.shard_calls() > 10 && avg_completion_time > 0.2 && w.idle_time() > 0.5\<close>,
  with the short-circuit evaluation of \<^verbatim>\<open>&&\<close>.
\<close>

definition steal_condition :: "Env \<Rightarrow> double \<Rightarrow> nat \<Rightarrow> Master \<Rightarrow> bool \<times> Master" where
  "steal_condition env avg_completion_time i m =
     (if shard_calls (method_stats m (stats_key (current_run m))) > 10
         \<and> dgreater avg_completion_time (round_double (2 / 10))
      then (case idle_time env (workers m ! i) m of (idle, m1) \<Rightarrow> (dgreater idle (round_double (5 / 10)), m1))
      else (False, m))"

text \<open>
  One iteration of the loop over the workers, and the loop; the value is
  \<^verbatim>\<open>need_update\<close>. The call of \<^verbatim>\<open>steal_work\<close> is recorded in \<open>steal_attempts\<close>.
\<close>

definition steal_turn :: "Env \<Rightarrow> double \<Rightarrow> nat \<Rightarrow> bool \<Rightarrow> Master \<Rightarrow> (bool, Master) result" where
  "steal_turn env avg_completion_time i need_update m =
     (case steal_condition env avg_completion_time i m of
        (c, m1) \<Rightarrow>
          rbind
            (if c then
               rbind (steal_work (current_run m1) (id_worker (workers m1 ! i)) avg_completion_time
                        (m1\<lparr>steal_attempts := steal_attempts m1 @ [id_worker (workers m1 ! i)]\<rparr>))
                 (\<lambda>stole m2. Ok (stole \<or> need_update) m2)
             else Ok need_update m1)
            (\<lambda>nu m3. Ok nu (if nu then send_table_assignments m3 else m3)))"

fun steal_turns :: "Env \<Rightarrow> double \<Rightarrow> nat list \<Rightarrow> bool \<Rightarrow> Master \<Rightarrow> (bool, Master) result" where
  "steal_turns env avg [] need_update m = Ok need_update m"
| "steal_turns env avg (i # rest) need_update m =
     rbind (steal_turn env avg i need_update m) (\<lambda>nu m'. steal_turns env avg rest nu m')"

text \<open>
  The block of \<^verbatim>\<open>barrier\<close> under \<^verbatim>\<open>if (lastWorkCheck - Now() > 0.1)\<close>, with the
  test.
\<close>

definition work_check_gate :: "double \<Rightarrow> double \<Rightarrow> bool" where
  "work_check_gate lastWorkCheck now = dgreater (dsub lastWorkCheck now) (round_double (1 / 10))"

definition work_check :: "Env \<Rightarrow> double \<Rightarrow> Master \<Rightarrow> (unit, Master) result" where
  "work_check env lastWorkCheck m =
     (case Now env m of
        (now, m1) \<Rightarrow>
          if work_check_gate lastWorkCheck now then
            (case Now env m1 of
               (_, m2) \<Rightarrow>
                 rbind
                   (steal_turns env
                      (ddiv (shard_time (method_stats m2 (stats_key (current_run m2))))
                         (double_of_int (shard_calls (method_stats m2 (stats_key (current_run m2))))))
                      [0..<length (workers m2)] False m2)
                   (\<lambda>_ m3. Ok () m3))
          else Ok () m1)"

text \<open>
  The first half of an iteration of the \<^verbatim>\<open>while\<close> loop of \<^verbatim>\<open>barrier\<close>: the reap,
  and after a successful reap the stealing block and the dispatch. (The readings of the
  clock that the logging macros take are not counted.)
\<close>

definition reap_iteration :: "Env \<Rightarrow> Master \<Rightarrow> (unit, Master) result" where
  "reap_iteration env m =
     (case Now env m of
        (lastWorkCheck, m1) \<Rightarrow>
          rbind (reap_one_task env m1)
            (\<lambda>w_id m2.
               if w_id \<ge> 0 then
                 rbind (work_check env lastWorkCheck (m2\<lparr>finished := Suc (finished m2)\<rparr>))
                   (\<lambda>_ m3.
                      if dispatched m3 < length (rd_shards (current_run m3)) then
                        rbind (dispatch_work env (current_run m3) m3)
                          (\<lambda>n m4. Ok () (m4\<lparr>dispatched := dispatched m4 + n\<rparr>))
                      else Ok () m3)
               else Ok () m2))"

text \<open>
  The inner loop of the flush round, \<^verbatim>\<open>while (flushed < workers_.size())\<close>: every
  iteration is one \<^verbatim>\<open>TryRead\<close>. The value is \<^verbatim>\<open>quiescent\<close>.
\<close>

fun flush_wait :: "nat \<Rightarrow> Env \<Rightarrow> nat \<Rightarrow> bool \<Rightarrow> Master \<Rightarrow> (bool, Master) result" where
  "flush_wait 0 env flushed quiescent m =
     (if flushed < length (workers m) then OutOfFuel m else Ok quiescent m)"
| "flush_wait (Suc n) env flushed quiescent m =
     (if flushed < length (workers m) then
        (case flush_response_in env (n_flush m) of
           Some (_, updatesdone) \<Rightarrow>
             flush_wait n env (Suc flushed) (if updatesdone > 0 then False else quiescent)
               (m\<lparr>n_flush := Suc (n_flush m)\<rparr>)
         | None \<Rightarrow> flush_wait n env flushed quiescent (m\<lparr>n_flush := Suc (n_flush m)\<rparr>))
      else Ok quiescent m)"

text \<open>
  The loop \<^verbatim>\<open>do { quiescent = true; ... } while (1);\<close> of \<^verbatim>\<open>barrier\<close>: the
  condition is the constant 1, and the body has no \<^verbatim>\<open>break\<close> or \<^verbatim>\<open>return\<close>.
\<close>

fun flush_rounds :: "nat \<Rightarrow> Env \<Rightarrow> Master \<Rightarrow> (unit, Master) result" where
  "flush_rounds 0 env m = OutOfFuel m"
| "flush_rounds (Suc n) env m =
     rbind (flush_wait n env 0 True (m\<lparr>sent := sent m @ [WORKER_FLUSH]\<rparr>))
       (\<lambda>quiescent m1. flush_rounds n env m1)"

text \<open>
  \<^verbatim>\<open>Master::barrier\<close>. The flush rounds and the apply broadcast stand inside the
  \<^verbatim>\<open>while\<close> loop, whose closing brace is the last of the function.
\<close>

fun barrier :: "nat \<Rightarrow> Env \<Rightarrow> Master \<Rightarrow> (unit, Master) result" where
  "barrier 0 env m =
     (if finished m < length (rd_shards (current_run m)) then OutOfFuel m else Ok () m)"
| "barrier (Suc n) env m =
     (if finished m < length (rd_shards (current_run m)) then
        rbind (reap_iteration env m)
          (\<lambda>_ m1. rbind (flush_rounds n env m1)
             (\<lambda>_ m2.
                case Now env (m2\<lparr>sent := sent m2 @ [WORKER_APPLY]\<rparr>) of
                  (now, m3) \<Rightarrow>
                    barrier n env
                      (m3\<lparr>method_stats := (method_stats m3)
                            (stats_key (current_run m3) :=
                               (method_stats m3 (stats_key (current_run m3)))
                                 \<lparr>total_time :=
                                    dsub (dadd (total_time (method_stats m3 (stats_key (current_run m3)))) now)
                                      (current_run_start m3)\<rparr>)\<rparr>)))
      else Ok () m)"

subsection \<open>Running a kernel\<close>

text \<open>
  \<^verbatim>\<open>Master::run\<close>. The loop that registers the master as the helper of every table
  changes no state of the model. The checks are in the order of the code.
\<close>

definition run :: "nat \<Rightarrow> Env \<Rightarrow> RunDescriptor \<Rightarrow> Master \<Rightarrow> (unit, Master) result" where
  "run fuel env r m =
     (if length (rd_shards (current_run m)) \<noteq> finished m
      then Aborted '' Cannot start kernel before previous one is finished '' m
      else
        (let m1 = m\<lparr>finished := 0, dispatched := 0\<rparr>
         in if rd_table r = None then Aborted ''Table locality must be specified!'' m1
            else case kernels m1 (rd_kernel r) of
              None \<Rightarrow> Aborted (''Invalid kernel class '' @ rd_kernel r) m1
            | Some methods \<Rightarrow>
                if rd_method r \<notin> set methods then Aborted ''Invalid method: '' m1
                else
                  (let m2 = m1\<lparr>method_stats := (method_stats m1)
                                 (stats_key r := (method_stats m1 (stats_key r))
                                    \<lparr>calls := calls (method_stats m1 (stats_key r)) + 1\<rparr>),
                               current_run := r\<rparr>
                   in case Now env m2 of
                        (now, m3) \<Rightarrow>
                          rbind
                            (if \<not> shards_assigned m3 then
                               rbind (assign_tables (m3\<lparr>current_run_start := now\<rparr>))
                                 (\<lambda>_ m4. Ok () (send_table_assignments m4))
                             else Ok () (m3\<lparr>current_run_start := now\<rparr>))
                            (\<lambda>_ m5.
                               rbind (assign_tasks (current_run m5) (rd_shards r)
                                        (m5\<lparr>kernel_epoch := kernel_epoch m5 + 1\<rparr>))
                                 (\<lambda>_ m6.
                                    rbind (dispatch_work env (current_run m6) m6)
                                      (\<lambda>n m7. barrier fuel env (m7\<lparr>dispatched := n\<rparr>)))))))"

subsection \<open>The operations of the master loop\<close>

text \<open>
  Between \<^verbatim>\<open>assign_tasks\<close> and the end of the epoch the master changes the work maps
  through three calls only: \<^verbatim>\<open>reap_one_task\<close>, \<^verbatim>\<open>steal_work\<close> (for some idle
  worker and average completion time) and \<^verbatim>\<open>dispatch_work\<close>. An event is one such
  call on the current run; \<open>states\<close> lists the states that a sequence of events goes
  through, up to the first call that does not return.
\<close>

datatype event = Reap | Steal int double | Dispatch

definition step :: "Env \<Rightarrow> event \<Rightarrow> Master \<Rightarrow> (unit, Master) result" where
  "step env e m =
     (case e of
        Reap \<Rightarrow> rbind (reap_one_task env m) (\<lambda>_ m'. Ok () m')
      | Steal idle_worker avg \<Rightarrow>
          rbind (steal_work (current_run m) idle_worker avg m) (\<lambda>_ m'. Ok () m')
      | Dispatch \<Rightarrow> rbind (dispatch_work env (current_run m) m) (\<lambda>_ m'. Ok () m'))"

fun states :: "Env \<Rightarrow> event list \<Rightarrow> Master \<Rightarrow> Master list" where
  "states env [] m = [m]"
| "states env (e # es) m =
     m # (case step env e m of Ok _ m' \<Rightarrow> states env es m' | _ \<Rightarrow> [])"

text \<open>
  The task \<^verbatim>\<open>steal_work\<close> selects: the \<^verbatim>\<open>WeightCompare\<close> maximum of the pending
  tasks of the first worker with the most pending tasks. \<open>migrations\<close> lists the ids of
  the tasks that the steals of a sequence of events migrate.
\<close>

definition steal_candidate :: "Master \<Rightarrow> TaskState option" where
  "steal_candidate m =
     (case max_element PendingCompare (workers m) of
        None \<Rightarrow> None
      | Some (_, src) \<Rightarrow> map_option snd (max_element WeightCompare (pending src)))"

definition migrated_id :: "event \<Rightarrow> Master \<Rightarrow> Taskid list" where
  "migrated_id e m =
     (case e of
        Steal idle_worker avg \<Rightarrow>
          (if returned (steal_work (current_run m) idle_worker avg m) = Some True
           then (case steal_candidate m of None \<Rightarrow> [] | Some task \<Rightarrow> [id_task task])
           else [])
      | _ \<Rightarrow> [])"

fun migrations :: "Env \<Rightarrow> event list \<Rightarrow> Master \<Rightarrow> Taskid list" where
  "migrations env [] m = []"
| "migrations env (e # es) m =
     (case step env e m of
        Ok _ m' \<Rightarrow> migrated_id e m @ migrations env es m'
      | _ \<Rightarrow> [])"

subsection \<open>The flush rounds as the spec words them\<close>

text \<open>
  The spec's flush phase: after a round in which a response reports
  \<^verbatim>\<open>updates_done > 0\<close> the round is repeated, otherwise the barrier proceeds. This
  loop is not the code's; it is here to be compared with \<open>flush_rounds\<close>.
\<close>

fun flush_rounds_spec :: "nat \<Rightarrow> Env \<Rightarrow> Master \<Rightarrow> (unit, Master) result" where
  "flush_rounds_spec 0 env m = OutOfFuel m"
| "flush_rounds_spec (Suc n) env m =
     rbind (flush_wait n env 0 True (m\<lparr>sent := sent m @ [WORKER_FLUSH]\<rparr>))
       (\<lambda>quiescent m1. if quiescent then Ok () m1 else flush_rounds_spec n env m1)"

subsection \<open>Predicates of the statements\<close>

text \<open>The task ids of a shard index: one for every registered table that has the shard.\<close>

definition shard_ids :: "TableMap \<Rightarrow> int \<Rightarrow> Taskid set" where
  "shard_ids tbs sh =
     set (map (\<lambda>p. Taskid (fst p) sh) (filter (\<lambda>p. sh < int (numShards (snd p))) tbs))"

text \<open>
  The state after the migration of \<open>task\<close> from the worker at \<open>s\<close> to another worker at
  \<open>d\<close>: the task ids of the task's shard leave the shard set of the source and join
  that of the destination, and the task, its stolen flag set, leaves the work map of the
  source and is placed in that of the destination.
\<close>

definition migrated :: "nat \<Rightarrow> nat \<Rightarrow> TaskState \<Rightarrow> Master \<Rightarrow> Master" where
  "migrated s d task m =
     m\<lparr>workers := (workers m)
        [s := (workers m ! s)
                \<lparr>shards := shards (workers m ! s) - shard_ids (tables m) (shard (id_task task)),
                 work := map_erase (id_task task) (work (workers m ! s))\<rparr>,
         d := (workers m ! d)
                \<lparr>shards := shards (workers m ! d) \<union> shard_ids (tables m) (shard (id_task task)),
                 work := map_put (task\<lparr>stolen := True\<rparr>) (work (workers m ! d))\<rparr>]\<rparr>"

text \<open>
  The invariant of the spec's \<^verbatim>\<open>WorkerState\<close>, for the shard sets the code keeps:
  every worker serves, in every table that has it, the shard of each task of its work
  map.
\<close>

definition serves_own_tasks :: "Master \<Rightarrow> bool" where
  "serves_own_tasks m =
     (\<forall>w\<in>set (workers m). \<forall>t\<in>set (work w). shard_ids (tables m) (shard (id_task t)) \<subseteq> shards w)"

text \<open>
  The guards of \<^verbatim>\<open>steal_work\<close> before the estimates: stealing is enabled, the idle
  worker (at \<open>d\<close>) is alive, the first worker with the most pending tasks (\<open>src\<close>, at
  \<open>s\<close>) has a pending task, and the task chosen among the pending tasks of \<open>src\<close> is not
  stolen.
\<close>

definition steal_guards :: "int \<Rightarrow> Master \<Rightarrow> nat \<Rightarrow> nat \<Rightarrow> WorkerState \<Rightarrow> TaskState \<Rightarrow> bool" where
  "steal_guards idle_worker m d s src task =
     (FLAGS_work_stealing m \<and> at_index (workers m) idle_worker = Some d \<and>
      alive (dead_workers m) (workers m ! d) \<and>
      max_element PendingCompare (workers m) = Some (s, src) \<and> num_pending src \<noteq> 0 \<and>
      map_option snd (max_element WeightCompare (pending src)) = Some task \<and> \<not> stolen task)"

text \<open>
  What \<^verbatim>\<open>max_element\<close> with \<^verbatim>\<open>WeightCompare\<close> selects from the pending tasks
  \<open>ps\<close>: the task at position \<open>i\<close>, which no later task outranks; when all sizes are
  equal it is the first task that is not stolen (the first task, when all are stolen);
  when all stolen flags are equal it is the first task of the largest size.
\<close>

definition best_pending :: "TaskState list \<Rightarrow> nat \<Rightarrow> TaskState \<Rightarrow> bool" where
  "best_pending ps i best =
     (i < length ps \<and> best = ps ! i \<and>
      (\<forall>k. i < k \<and> k < length ps \<longrightarrow> \<not> WeightCompare best (ps ! k)) \<and>
      ((\<forall>p\<in>set ps. size_task p = size_task best) \<longrightarrow>
         (\<forall>p\<in>set ps. \<not> WeightCompare best p) \<and> (\<forall>l<i. stolen (ps ! l) \<and> \<not> stolen best)) \<and>
      ((\<forall>p\<in>set ps. stolen p = stolen best) \<longrightarrow>
         (\<forall>p\<in>set ps. sint (size_task p) \<le> sint (size_task best)) \<and>
         (\<forall>l<i. sint (size_task (ps ! l)) < sint (size_task best))))"

text \<open>A double that is a finite number not below zero, or the positive infinity.\<close>

fun not_below :: "double \<Rightarrow> bool" where
  "not_below (Fin a) = (0 \<le> a)"
| "not_below PInf = True"
| "not_below _ = False"


text \<open>The number of tasks of a status in a work map, as \<^verbatim>\<open>COUNT_TASKS\<close> counts them.\<close>

definition cnt :: "Status \<Rightarrow> TaskState list \<Rightarrow> nat" where
  "cnt st ts = length (filter (\<lambda>t. status t = st) ts)"

text \<open>
  Invariants of the work maps of the workers (a list of work maps, in the order of the
  workers): each is a map, its keys ascending strictly; no task id is in the work maps
  of two workers; no work map has two active tasks.
\<close>

abbreviation works :: "Master \<Rightarrow> TaskMap list" where
  "works m \<equiv> map work (workers m)"

definition maps_sorted :: "TaskMap list \<Rightarrow> bool" where
  "maps_sorted W = (\<forall>ts\<in>set W. sorted_wrt taskid_less (map id_task ts))"

definition maps_apart :: "TaskMap list \<Rightarrow> bool" where
  "maps_apart W =
     (\<forall>i<length W. \<forall>j<length W. i \<noteq> j \<longrightarrow> id_task ` set (W ! i) \<inter> id_task ` set (W ! j) = {})"

definition one_active :: "TaskMap list \<Rightarrow> bool" where
  "one_active W = (\<forall>ts\<in>set W. cnt ACTIVE ts \<le> 1)"

text \<open>
  The work map of a worker after \<^verbatim>\<open>dispatch_work\<close>: when the worker has a pending
  task and no active task, the task \<^verbatim>\<open>get_next\<close> selects is active; otherwise the
  work map is as before.
\<close>

definition dispatched_work :: "WorkerState \<Rightarrow> TaskMap" where
  "dispatched_work w =
     (if 0 < num_pending w \<and> num_active w = 0 then
        (case max_element WeightCompare (pending w) of
           None \<Rightarrow> work w
         | Some (_, best) \<Rightarrow> map_modify (id_task best) (\<lambda>t. t\<lparr>status := ACTIVE\<rparr>) (work w))
      else work w)"

text \<open>
  The work maps after the migration of \<open>task\<close> from the worker at \<open>s\<close> to the worker at
  \<open>d\<close>: the task leaves the first and is put, stolen, into the second.
\<close>

definition moved :: "nat \<Rightarrow> nat \<Rightarrow> TaskState \<Rightarrow> TaskMap list \<Rightarrow> TaskMap list" where
  "moved s d task W =
     (W[s := map_erase (id_task task) (W ! s)])
       [d := map_put (task\<lparr>stolen := True\<rparr>) ((W[s := map_erase (id_task task) (W ! s)]) ! d)]"

text \<open>The ids of the tasks whose stolen flag is set, over all workers.\<close>

definition stolen_ids :: "Master \<Rightarrow> Taskid set" where
  "stolen_ids m = set (concat (map (\<lambda>w. map id_task (filter stolen (work w))) (workers m)))"

text \<open>The ids of the tasks of one work map whose stolen flag is set.\<close>

definition stolen_in :: "TaskMap \<Rightarrow> Taskid set" where
  "stolen_in ts = id_task ` {t \<in> set ts. stolen t}"

subsection \<open>Example states\<close>

text \<open>
  Two tables, of two shards and of one shard; a run of the kernel method \<open>K:run\<close> on
  the first table; two workers, of which the first owns every shard and holds the two
  pending tasks of the run.
\<close>

definition ex_tables :: TableMap where
  "ex_tables = [(0, \<lparr>id_table = 0, numShards = 2\<rparr>), (1, \<lparr>id_table = 1, numShards = 1\<rparr>)]"

definition ex_run :: RunDescriptor where
  "ex_run = \<lparr>rd_kernel = ''K'', rd_method = ''run'',
             rd_table = Some \<lparr>id_table = 0, numShards = 2\<rparr>, rd_shards = [0, 1]\<rparr>"

definition ex_src :: WorkerState where
  "ex_src = \<lparr>work = [new_TaskState (Taskid 0 0) 1, new_TaskState (Taskid 0 1) 1],
             shards = {Taskid 0 0, Taskid 0 1, Taskid 1 0},
             last_ping_time = Fin 0, id_worker = 0, last_task_start = Fin 0,
             total_runtime = Fin 0, checkpointing = False\<rparr>"

definition ex_dst :: WorkerState where
  "ex_dst = \<lparr>work = [], shards = {}, last_ping_time = Fin 0, id_worker = 1,
             last_task_start = Fin 0, total_runtime = Fin 0, checkpointing = False\<rparr>"

definition ex_master :: Master where
  "ex_master =
     \<lparr>workers = [ex_src, ex_dst], tables = ex_tables, dead_workers = {},
      FLAGS_work_stealing = True,
      kernels = (\<lambda>k. if k = ''K'' then Some [''run''] else None),
      kernel_epoch = 1, finished = 0, dispatched = 0, shards_assigned = True,
      current_run = ex_run, current_run_start = Fin 0,
      method_stats = (\<lambda>_. default_MethodStats), sent = [],
      n_now = 0, n_done = 0, n_flush = 0, steal_attempts = []\<rparr>"

text \<open>
  An environment with a clock that advances by one second at every reading, no
  \<^verbatim>\<open>KERNEL_DONE\<close> message, and the flush responses of scenario S5 of the spec: the
  two workers report 3 and 0 updates in the first round, and 0 ever after.
\<close>

definition ex_env :: Env where
  "ex_env = \<lparr>clock = (\<lambda>k. real k), kernel_done_in = (\<lambda>_. None),
             flush_response_in = (\<lambda>k. Some (if even k then 1 else 2, if k = 0 then 3 else 0))\<rparr>"

text \<open>
  For the ranking of \<^verbatim>\<open>WeightCompare\<close>: the first worker of the example with its
  first pending task marked stolen.
\<close>

definition ex_stolen_first :: WorkerState where
  "ex_stolen_first =
     ex_src\<lparr>work := [(new_TaskState (Taskid 0 0) 1)\<lparr>stolen := True\<rparr>, new_TaskState (Taskid 0 1) 1]\<rparr>"

text \<open>
  For the assignment of a shard that no worker owns: the first worker owns shard 1 of
  table 0 only, the second owns nothing.
\<close>

definition ex_master_unowned :: Master where
  "ex_master_unowned = ex_master\<lparr>workers := [ex_src\<lparr>shards := {Taskid 0 1}\<rparr>, ex_dst]\<rparr>"

text \<open>
  An environment in which the first worker reports its kernel on shard 0 of table 0 as
  done at the first reading; the state at the start of an epoch of the example run, the
  state after the first dispatch, and the state after that report is reaped.
\<close>

definition ex_env_done :: Env where
  "ex_env_done =
     ex_env\<lparr>kernel_done_in :=
       (\<lambda>k. if k = 0
            then Some (1, \<lparr>kd_kernel = \<lparr>kr_kernel = ''K'', kr_method = ''run'',
                                        kr_table = 0, kr_shard = 0\<rparr>,
                           kd_shards = []\<rparr>)
            else None)\<rparr>"

definition ex_epoch :: Master where
  "ex_epoch = state_of (assign_tasks ex_run [0, 1] ex_master)"

definition ex_dispatched :: Master where
  "ex_dispatched = state_of (dispatch_work ex_env_done ex_run ex_epoch)"

definition ex_reaped :: Master where
  "ex_reaped = state_of (reap_one_task ex_env_done ex_dispatched)"

text \<open>The state after the second worker has stolen a task at the start of the epoch.\<close>

definition ex_stolen :: Master where
  "ex_stolen = state_of (steal_work ex_run 1 (Fin (1 / 2)) ex_epoch)"

text \<open>
  For the stealing block of the barrier: the state after the first dispatch with the
  statistics of eleven earlier calls of the method, of one second each; an environment
  whose clock starts at a hundred seconds and advances by 1/128 of a second at every
  reading, and the state in which the report of the first worker has been reaped there.
\<close>

definition ex_timed :: Master where
  "ex_timed =
     ex_dispatched\<lparr>method_stats :=
       (\<lambda>_. \<lparr>calls = 1, shard_time = Fin 11, shard_calls = 11, total_time = Fin 0\<rparr>)\<rparr>"

definition ex_env_slow :: Env where
  "ex_env_slow = ex_env_done\<lparr>clock := (\<lambda>k. 100 + real k / 128)\<rparr>"

definition ex_after_reap :: Master where
  "ex_after_reap = state_of (reap_one_task ex_env_slow (snd (Now ex_env_slow ex_timed)))"

text \<open>
  For the estimates: a table of four shards and a run on it; the first worker owns the
  four shards and holds their tasks, pending, of the sizes 3, 1, 1 and 1.
\<close>

definition ex_sized :: "TaskState list" where
  "ex_sized = [new_TaskState (Taskid 0 0) 3, new_TaskState (Taskid 0 1) 1,
               new_TaskState (Taskid 0 2) 1, new_TaskState (Taskid 0 3) 1]"

definition ex_run_sized :: RunDescriptor where
  "ex_run_sized = ex_run\<lparr>rd_table := Some \<lparr>id_table = 0, numShards = 4\<rparr>, rd_shards := [0, 1, 2, 3]\<rparr>"

definition ex_master_sized :: Master where
  "ex_master_sized =
     ex_master\<lparr>tables := [(0, \<lparr>id_table = 0, numShards = 4\<rparr>)],
               workers := [ex_src\<lparr>work := ex_sized,
                                  shards := {Taskid 0 0, Taskid 0 1, Taskid 0 2, Taskid 0 3}\<rparr>, ex_dst],
               current_run := ex_run_sized\<rparr>"

section \<open>Properties\<close>

subsection \<open>Outcomes\<close>

lemma returned_Some: "returned r = Some a \<Longrightarrow> r = Ok a (state_of r)"
  by (cases r) simp_all

lemma is_Ok_returned: "is_Ok r \<Longrightarrow> \<exists>a. r = Ok a (state_of r)"
  by (cases r) simp_all

subsection \<open>The flush rounds\<close>

lemma flush_wait_cases:
  "(\<exists>q' m'. flush_wait n env flushed q m = Ok q' m' \<and> sent m' = sent m) \<or>
   (\<exists>m'. flush_wait n env flushed q m = OutOfFuel m' \<and> sent m' = sent m)"
proof (induction n arbitrary: flushed q m)
  case 0
  then show ?case by simp
next
  case (Suc n)
  show ?case
  proof (cases "flushed < length (workers m)")
    case False
    then show ?thesis by simp
  next
    case True
    show ?thesis
    proof (cases "flush_response_in env (n_flush m)")
      case None
      with True Suc.IH[of flushed q "m\<lparr>n_flush := Suc (n_flush m)\<rparr>"] show ?thesis by simp
    next
      case (Some a)
      obtain src u where a: "a = (src, u)" by (cases a)
      with Some True
        Suc.IH[of "Suc flushed" "if u > 0 then False else q" "m\<lparr>n_flush := Suc (n_flush m)\<rparr>"]
      show ?thesis by simp
    qed
  qed
qed

lemma flush_rounds_OutOfFuel:
  "\<exists>k m'. flush_rounds fuel env m = OutOfFuel m' \<and> sent m' = sent m @ replicate k WORKER_FLUSH"
proof (induction fuel arbitrary: m)
  case 0
  have "flush_rounds 0 env m = OutOfFuel m \<and> sent m = sent m @ replicate 0 WORKER_FLUSH" by simp
  then show ?case by blast
next
  case (Suc n)
  let ?m0 = "m\<lparr>sent := sent m @ [WORKER_FLUSH]\<rparr>"
  from flush_wait_cases[of n env 0 True ?m0] show ?case
  proof
    assume "\<exists>q' m'. flush_wait n env 0 True ?m0 = Ok q' m' \<and> sent m' = sent ?m0"
    then obtain q' m1 where w: "flush_wait n env 0 True ?m0 = Ok q' m1" "sent m1 = sent ?m0" by blast
    from Suc.IH[of m1] obtain k m' where
      r: "flush_rounds n env m1 = OutOfFuel m'" "sent m' = sent m1 @ replicate k WORKER_FLUSH" by blast
    have "flush_rounds (Suc n) env m = OutOfFuel m' \<and> sent m' = sent m @ replicate (Suc k) WORKER_FLUSH"
      using w r by (simp add: rbind_def)
    then show ?thesis by blast
  next
    assume "\<exists>m'. flush_wait n env 0 True ?m0 = OutOfFuel m' \<and> sent m' = sent ?m0"
    then obtain m1 where w: "flush_wait n env 0 True ?m0 = OutOfFuel m1" "sent m1 = sent ?m0" by blast
    have "flush_rounds (Suc n) env m = OutOfFuel m1 \<and> sent m1 = sent m @ replicate (Suc 0) WORKER_FLUSH"
      using w by (simp add: rbind_def)
    then show ?thesis by blast
  qed
qed

lemma barrier_Ok_iff:
  "(barrier fuel env m = Ok () m') = (\<not> finished m < length (rd_shards (current_run m)) \<and> m' = m)"
proof (cases fuel)
  case 0
  then show ?thesis by auto
next
  case (Suc n)
  show ?thesis
  proof (cases "finished m < length (rd_shards (current_run m))")
    case False
    with Suc show ?thesis by auto
  next
    case True
    have "\<And>m1. \<not> is_Ok (rbind (flush_rounds n env m1) f)" for f :: "unit \<Rightarrow> Master \<Rightarrow> (unit, Master) result"
    proof -
      fix m1
      from flush_rounds_OutOfFuel[of n env m1] obtain k m2 where
        "flush_rounds n env m1 = OutOfFuel m2" by blast
      then show "\<not> is_Ok (rbind (flush_rounds n env m1) f)" by (simp add: rbind_def)
    qed
    then have "\<not> is_Ok (barrier (Suc n) env m)"
      using True by (cases "reap_iteration env m") (simp_all add: rbind_def)
    with True Suc show ?thesis by auto
  qed
qed

text \<open>
  Scenario S5 of the spec (two workers; the first round reports 3 and 0 updates, the
  second 0 and 0): the loop of the spec returns after two rounds, the loop of the code is
  still sending flush broadcasts when the fuel ends.
\<close>

lemma flush_rounds_spec_S5:
  "is_Ok (flush_rounds_spec 10 ex_env ex_master) \<and>
   sent (state_of (flush_rounds_spec 10 ex_env ex_master)) = [WORKER_FLUSH, WORKER_FLUSH]"
  by code_simp

lemma flush_rounds_S5:
  "\<not> is_Ok (flush_rounds 10 ex_env ex_master) \<and>
   sent (state_of (flush_rounds 10 ex_env ex_master)) = replicate 9 WORKER_FLUSH"
  by code_simp

subsection \<open>Task maps and shard sets\<close>

lemma taskid_less_irrefl: "\<not> taskid_less a a"
  by (simp add: taskid_less_def)

lemma taskid_less_total: "\<not> taskid_less a b \<Longrightarrow> \<not> taskid_less b a \<Longrightarrow> a = b"
  by (cases a; cases b) (auto simp: taskid_less_def)

lemma map_find_Some: "map_find k ts = Some t \<Longrightarrow> t \<in> set ts \<and> id_task t = k"
  by (induction ts) (auto split: if_splits)

lemma map_find_None: "(map_find k ts = None) = (k \<notin> id_task ` set ts)"
  by (induction ts) auto

lemma map_find_map_put_same: "map_find (id_task s) (map_put s ts) = Some s"
  by (induction ts) (auto simp: taskid_less_irrefl dest: taskid_less_total)

lemma map_find_map_put_other: "k \<noteq> id_task s \<Longrightarrow> map_find k (map_put s ts) = map_find k ts"
  by (induction ts) (auto simp: taskid_less_irrefl dest: taskid_less_total)

lemma set_map_put: "set (map_put s ts) \<subseteq> insert s (set ts)"
  by (induction ts) auto

lemma in_map_put: "s \<in> set (map_put s ts)"
  by (induction ts) auto

lemma keep_map_put: "t \<in> set ts \<Longrightarrow> id_task t \<noteq> id_task s \<Longrightarrow> t \<in> set (map_put s ts)"
  by (induction ts) (auto dest: taskid_less_total)

lemma map_find_map_erase: "map_find k (map_erase j ts) = (if k = j then None else map_find k ts)"
  by (induction ts) (auto simp: map_erase_def)

lemma map_erase_map_modify:
  "(\<And>t. id_task (f t) = id_task t) \<Longrightarrow> map_erase k (map_modify k f ts) = map_erase k ts"
  by (induction ts) (auto simp: map_erase_def)

lemma map_find_map_modify:
  "(\<And>t. id_task (f t) = id_task t) \<Longrightarrow>
   map_find j (map_modify k f ts) = (if j = k then map_option f (map_find k ts) else map_find j ts)"
  by (induction ts) auto

lemma ids_map_modify:
  "(\<And>t. id_task (f t) = id_task t) \<Longrightarrow> map id_task (map_modify k f ts) = map id_task ts"
  by (induction ts) auto

lemma assign_shard_set_insert:
  "assign_shard_set tbs sh True ss = Some (ss \<union> shard_ids tbs sh)"
  by (induction tbs arbitrary: ss) (auto simp: shard_ids_def)

lemma assign_shard_set_erase:
  "assign_shard_set tbs sh False ss = Some ss' \<Longrightarrow> ss' = ss - shard_ids tbs sh"
proof (induction tbs arbitrary: ss)
  case Nil
  then show ?case by (simp add: shard_ids_def)
next
  case (Cons p tbs)
  obtain i tb where p: "p = (i, tb)" by (cases p)
  show ?case
  proof (cases "sh < int (numShards tb)")
    case False
    with Cons p show ?thesis by (auto simp: shard_ids_def)
  next
    case True
    with Cons.prems p have in_ss: "Taskid i sh \<in> ss"
      and r: "assign_shard_set tbs sh False (ss - {Taskid i sh}) = Some ss'"
      by (auto split: if_splits)
    from Cons.IH[OF r] have "ss' = ss - {Taskid i sh} - shard_ids tbs sh" .
    with True p show ?thesis by (auto simp: shard_ids_def)
  qed
qed

lemma assign_shard_set_erase_Some:
  "distinct (map fst tbs) \<Longrightarrow> shard_ids tbs sh \<subseteq> ss \<Longrightarrow>
   assign_shard_set tbs sh False ss = Some (ss - shard_ids tbs sh)"
proof (induction tbs arbitrary: ss)
  case Nil
  then show ?case by (simp add: shard_ids_def)
next
  case (Cons p tbs)
  obtain i tb where p: "p = (i, tb)" by (cases p)
  show ?case
  proof (cases "sh < int (numShards tb)")
    case False
    with Cons p show ?thesis by (auto simp: shard_ids_def)
  next
    case True
    have notin: "Taskid i sh \<notin> shard_ids tbs sh"
      using Cons.prems(1) p by (auto simp: shard_ids_def image_iff)
    have sub: "shard_ids tbs sh \<subseteq> ss - {Taskid i sh}"
      using Cons.prems(2) notin p True by (auto simp: shard_ids_def)
    have d: "distinct (map fst tbs)" using Cons.prems(1) by simp
    have in_ss: "Taskid i sh \<in> ss" using Cons.prems(2) p True by (auto simp: shard_ids_def)
    from Cons.IH[OF d sub] in_ss True p show ?thesis
      by (auto simp: shard_ids_def)
  qed
qed

subsection \<open>The element \<^verbatim>\<open>max_element\<close> returns\<close>

lemma max_element_from_later:
  "max_element_from cmp ri r i xs = (j, b) \<Longrightarrow>
     (j = ri \<and> b = r \<and> (\<forall>x\<in>set xs. \<not> cmp r x)) \<or>
     (\<exists>k<length xs. j = i + k \<and> b = xs ! k \<and> (\<forall>l. k < l \<and> l < length xs \<longrightarrow> \<not> cmp b (xs ! l)))"
proof (induction xs arbitrary: ri r i)
  case Nil
  then show ?case by simp
next
  case (Cons x xs)
  show ?case
  proof (cases "cmp r x")
    case True
    with Cons.prems have "max_element_from cmp i x (Suc i) xs = (j, b)" by simp
    from Cons.IH[OF this] show ?thesis
    proof
      assume a: "j = i \<and> b = x \<and> (\<forall>y\<in>set xs. \<not> cmp x y)"
      have "0 < length (x # xs) \<and> j = i + 0 \<and> b = (x # xs) ! 0 \<and>
            (\<forall>l. 0 < l \<and> l < length (x # xs) \<longrightarrow> \<not> cmp b ((x # xs) ! l))"
        using a by (auto simp: nth_Cons split: nat.splits)
      then show ?thesis by blast
    next
      assume "\<exists>k<length xs. j = Suc i + k \<and> b = xs ! k \<and> (\<forall>l. k < l \<and> l < length xs \<longrightarrow> \<not> cmp b (xs ! l))"
      then obtain k where k: "k < length xs" "j = Suc i + k" "b = xs ! k"
        "\<forall>l. k < l \<and> l < length xs \<longrightarrow> \<not> cmp b (xs ! l)" by blast
      have "Suc k < length (x # xs) \<and> j = i + Suc k \<and> b = (x # xs) ! Suc k \<and>
            (\<forall>l. Suc k < l \<and> l < length (x # xs) \<longrightarrow> \<not> cmp b ((x # xs) ! l))"
        using k by (auto simp: nth_Cons split: nat.splits)
      then show ?thesis by blast
    qed
  next
    case False
    with Cons.prems have "max_element_from cmp ri r (Suc i) xs = (j, b)" by simp
    from Cons.IH[OF this] show ?thesis
    proof
      assume "j = ri \<and> b = r \<and> (\<forall>y\<in>set xs. \<not> cmp r y)"
      with False show ?thesis by simp
    next
      assume "\<exists>k<length xs. j = Suc i + k \<and> b = xs ! k \<and> (\<forall>l. k < l \<and> l < length xs \<longrightarrow> \<not> cmp b (xs ! l))"
      then obtain k where k: "k < length xs" "j = Suc i + k" "b = xs ! k"
        "\<forall>l. k < l \<and> l < length xs \<longrightarrow> \<not> cmp b (xs ! l)" by blast
      have "Suc k < length (x # xs) \<and> j = i + Suc k \<and> b = (x # xs) ! Suc k \<and>
            (\<forall>l. Suc k < l \<and> l < length (x # xs) \<longrightarrow> \<not> cmp b ((x # xs) ! l))"
        using k by (auto simp: nth_Cons split: nat.splits)
      then show ?thesis by blast
    qed
  qed
qed

lemma max_element_later:
  assumes "max_element cmp xs = Some (j, b)"
  shows "j < length xs \<and> b = xs ! j \<and> (\<forall>l. j < l \<and> l < length xs \<longrightarrow> \<not> cmp b (xs ! l))"
proof (cases xs)
  case Nil
  with assms show ?thesis by (simp add: max_element_def)
next
  case (Cons x rest)
  with assms have m: "max_element_from cmp 0 x 1 rest = (j, b)" by (simp add: max_element_def)
  from max_element_from_later[OF m] show ?thesis
  proof
    assume "j = 0 \<and> b = x \<and> (\<forall>y\<in>set rest. \<not> cmp x y)"
    then show ?thesis using Cons by (auto simp: nth_Cons split: nat.splits)
  next
    assume "\<exists>k<length rest. j = 1 + k \<and> b = rest ! k \<and> (\<forall>l. k < l \<and> l < length rest \<longrightarrow> \<not> cmp b (rest ! l))"
    then show ?thesis using Cons by (auto simp: nth_Cons split: nat.splits)
  qed
qed

lemma max_element_Some:
  "xs \<noteq> [] \<Longrightarrow> \<exists>j b. max_element cmp xs = Some (j, b)"
  by (cases xs) (auto simp: max_element_def intro: prod.exhaust)

lemma max_element_None: "(max_element cmp xs = None) = (xs = [])"
  by (cases xs) (auto simp: max_element_def)

lemma max_element_from_key:
  fixes f :: "'a \<Rightarrow> int"
  assumes "\<forall>a\<in>insert r (set xs). \<forall>b\<in>insert r (set xs). cmp a b = (f a < f b)"
    and "max_element_from cmp ri r i xs = (j, b)"
  shows "f r \<le> f b \<and> (\<forall>x\<in>set xs. f x \<le> f b) \<and>
     ((j = ri \<and> b = r) \<or>
      (\<exists>k<length xs. j = i + k \<and> b = xs ! k \<and> f r < f b \<and> (\<forall>l<k. f (xs ! l) < f b)))"
  using assms
proof (induction xs arbitrary: ri r i)
  case Nil
  then show ?case by simp
next
  case (Cons x xs)
  show ?case
  proof (cases "cmp r x")
    case True
    then have rx: "f r < f x" using Cons.prems(1) by simp
    from True Cons.prems have m: "max_element_from cmp i x (Suc i) xs = (j, b)" by simp
    have c: "\<forall>a\<in>insert x (set xs). \<forall>b\<in>insert x (set xs). cmp a b = (f a < f b)"
      using Cons.prems(1) by simp
    from Cons.IH[OF c m]
    have ih: "f x \<le> f b" "\<forall>y\<in>set xs. f y \<le> f b"
      "(j = i \<and> b = x) \<or> (\<exists>k<length xs. j = Suc i + k \<and> b = xs ! k \<and> f x < f b \<and> (\<forall>l<k. f (xs ! l) < f b))"
      by auto
    from ih(3) have "\<exists>k<length (x # xs). j = i + k \<and> b = (x # xs) ! k \<and> f r < f b \<and> (\<forall>l<k. f ((x # xs) ! l) < f b)"
    proof
      assume "j = i \<and> b = x"
      then have "0 < length (x # xs) \<and> j = i + 0 \<and> b = (x # xs) ! 0 \<and> f r < f b \<and> (\<forall>l<0. f ((x # xs) ! l) < f b)"
        using rx by simp
      then show ?thesis by blast
    next
      assume "\<exists>k<length xs. j = Suc i + k \<and> b = xs ! k \<and> f x < f b \<and> (\<forall>l<k. f (xs ! l) < f b)"
      then obtain k where k: "k < length xs" "j = Suc i + k" "b = xs ! k" "f x < f b" "\<forall>l<k. f (xs ! l) < f b"
        by blast
      have "Suc k < length (x # xs) \<and> j = i + Suc k \<and> b = (x # xs) ! Suc k \<and> f r < f b \<and>
          (\<forall>l<Suc k. f ((x # xs) ! l) < f b)"
        using k rx by (auto simp: nth_Cons split: nat.splits)
      then show ?thesis by blast
    qed
    with ih rx show ?thesis by auto
  next
    case False
    then have rx: "f x \<le> f r" using Cons.prems(1) by simp
    from False Cons.prems have m: "max_element_from cmp ri r (Suc i) xs = (j, b)" by simp
    have c: "\<forall>a\<in>insert r (set xs). \<forall>b\<in>insert r (set xs). cmp a b = (f a < f b)"
      using Cons.prems(1) by simp
    from Cons.IH[OF c m]
    have ih: "f r \<le> f b" "\<forall>y\<in>set xs. f y \<le> f b"
      "(j = ri \<and> b = r) \<or> (\<exists>k<length xs. j = Suc i + k \<and> b = xs ! k \<and> f r < f b \<and> (\<forall>l<k. f (xs ! l) < f b))"
      by auto
    from ih(3) have "(j = ri \<and> b = r) \<or>
       (\<exists>k<length (x # xs). j = i + k \<and> b = (x # xs) ! k \<and> f r < f b \<and> (\<forall>l<k. f ((x # xs) ! l) < f b))"
    proof
      assume "j = ri \<and> b = r"
      then show ?thesis by simp
    next
      assume "\<exists>k<length xs. j = Suc i + k \<and> b = xs ! k \<and> f r < f b \<and> (\<forall>l<k. f (xs ! l) < f b)"
      then obtain k where k: "k < length xs" "j = Suc i + k" "b = xs ! k" "f r < f b" "\<forall>l<k. f (xs ! l) < f b"
        by blast
      have "Suc k < length (x # xs) \<and> j = i + Suc k \<and> b = (x # xs) ! Suc k \<and> f r < f b \<and>
          (\<forall>l<Suc k. f ((x # xs) ! l) < f b)"
        using k rx by (auto simp: nth_Cons split: nat.splits)
      then show ?thesis by blast
    qed
    with ih rx show ?thesis by auto
  qed
qed

lemma max_element_key:
  fixes f :: "'a \<Rightarrow> int"
  assumes c: "\<forall>a\<in>set xs. \<forall>b\<in>set xs. cmp a b = (f a < f b)"
    and m: "max_element cmp xs = Some (j, b)"
  shows "(\<forall>x\<in>set xs. f x \<le> f b) \<and> (\<forall>l<j. f (xs ! l) < f b)"
proof (cases xs)
  case Nil
  with m show ?thesis by (simp add: max_element_def)
next
  case (Cons x rest)
  with m have m': "max_element_from cmp 0 x 1 rest = (j, b)" by (simp add: max_element_def)
  have c': "\<forall>a\<in>insert x (set rest). \<forall>b\<in>insert x (set rest). cmp a b = (f a < f b)"
    using c Cons by simp
  from max_element_from_key[OF c' m']
  have k: "f x \<le> f b" "\<forall>y\<in>set rest. f y \<le> f b"
    "(j = 0 \<and> b = x) \<or> (\<exists>k<length rest. j = 1 + k \<and> b = rest ! k \<and> f x < f b \<and> (\<forall>l<k. f (rest ! l) < f b))"
    by auto
  have "\<forall>l<j. f (xs ! l) < f b"
    using k(3) Cons by (auto simp: nth_Cons split: nat.splits)
  with k Cons show ?thesis by auto
qed

subsection \<open>Selection and migration\<close>

lemma best_pending_max_element:
  assumes m: "max_element WeightCompare ps = Some (i, best)"
  shows "best_pending ps i best"
proof -
  from max_element_later[OF m]
  have a: "i < length ps" "best = ps ! i"
    "\<forall>k. i < k \<and> k < length ps \<longrightarrow> \<not> WeightCompare best (ps ! k)" by auto
  have best_in: "best \<in> set ps" using a by simp
  have b: "(\<forall>p\<in>set ps. \<not> WeightCompare best p) \<and> (\<forall>l<i. stolen (ps ! l) \<and> \<not> stolen best)"
    if eq: "\<forall>p\<in>set ps. size_task p = size_task best"
  proof -
    let ?f = "\<lambda>t. if stolen t then (0::int) else 1"
    have c: "\<forall>a\<in>set ps. \<forall>b\<in>set ps. WeightCompare a b = (?f a < ?f b)"
      using eq by (auto simp: WeightCompare_def)
    from max_element_key[OF c m]
    have k: "\<forall>x\<in>set ps. ?f x \<le> ?f best" "\<forall>l<i. ?f (ps ! l) < ?f best" by auto
    have "\<forall>p\<in>set ps. \<not> WeightCompare best p"
      using k(1) c best_in by (auto simp: not_less)
    moreover have "\<forall>l<i. stolen (ps ! l) \<and> \<not> stolen best"
      using k(2) by (auto split: if_splits)
    ultimately show ?thesis by blast
  qed
  have c: "(\<forall>p\<in>set ps. sint (size_task p) \<le> sint (size_task best)) \<and>
      (\<forall>l<i. sint (size_task (ps ! l)) < sint (size_task best))"
    if eq: "\<forall>p\<in>set ps. stolen p = stolen best"
  proof -
    have c: "\<forall>a\<in>set ps. \<forall>b\<in>set ps.
        WeightCompare a b = (sint (size_task a) < sint (size_task b))"
      using eq by (auto simp: WeightCompare_def)
    from max_element_key[OF c m] show ?thesis by auto
  qed
  show ?thesis
    unfolding best_pending_def using a b c by blast
qed

lemma list_update_four:
  "s \<noteq> d \<Longrightarrow> xs[s := a, d := b, s := c, d := e] = xs[s := c, d := e]"
proof -
  assume n: "s \<noteq> d"
  have "xs[s := a, d := b, s := c, d := e] = xs[d := b, s := a, s := c, d := e]"
    using n by (simp add: list_update_swap[of s d])
  also have "\<dots> = xs[d := b, s := c, d := e]" by simp
  also have "\<dots> = xs[s := c, d := b, d := e]"
    using n by (simp add: list_update_swap[of s d])
  also have "\<dots> = xs[s := c, d := e]" by simp
  finally show ?thesis .
qed

lemma in_pending: "t \<in> set (pending w) \<Longrightarrow> t \<in> set (work w) \<and> status t = PENDING"
  by (simp add: pending_def tasks_with_def)

lemma migrate_Ok:
  assumes "s < length (workers m)" "d < length (workers m)" "s \<noteq> d"
    and "distinct (map fst (tables m))"
    and "shard_ids (tables m) (shard (id_task task)) \<subseteq> shards (workers m ! s)"
    and "task \<in> set (work (workers m ! s))"
  shows "migrate s d task m = Ok True (migrated s d task m)"
proof -
  have f: "map_find (id_task task) (work (workers m ! s)) \<noteq> None"
    using assms(6) by (auto simp: map_find_None)
  then obtain t0 where t0: "map_find (id_task task) (work (workers m ! s)) = Some t0" by blast
  have er: "assign_shard_set (tables m) (shard (id_task task)) False (shards (workers m ! s))
      = Some (shards (workers m ! s) - shard_ids (tables m) (shard (id_task task)))"
    using assign_shard_set_erase_Some[OF assms(4,5)] .
  show ?thesis
    using assms(1-3) t0 er
    by (simp add: migrate_def migrated_def Let_def assign_shard_def assign_shard_set_insert
        remove_task_def assign_task_def map_find_map_modify map_erase_map_modify list_update_four)
qed

lemma migrate_OkD:
  assumes "migrate s d task m = Ok b m'" "s < length (workers m)" "d < length (workers m)" "s \<noteq> d"
  shows "b \<and> m' = migrated s d task m"
  using assms
  by (auto simp: migrate_def migrated_def Let_def assign_shard_def assign_shard_set_insert
        remove_task_def assign_task_def map_find_map_modify map_erase_map_modify list_update_four
        split: option.splits dest!: assign_shard_set_erase)

lemma migrate_not_False: "migrate s d task m \<noteq> Ok False m'"
  by (auto simp: migrate_def Let_def split: option.splits)

subsection \<open>Rounding\<close>

lemma round_even_of_int: "round_even (of_int j) = j"
  by (simp add: round_even_def)

lemma round_even_nonneg: "0 \<le> x \<Longrightarrow> 0 \<le> round_even x"
  by (auto simp: round_even_def Let_def)

lemma round_even_nonpos: "x \<le> 0 \<Longrightarrow> round_even x \<le> 0"
proof -
  assume x: "x \<le> 0"
  show ?thesis
  proof (cases "x = 0")
    case True
    then show ?thesis by (simp add: round_even_def)
  next
    case False
    with x have "x < 0" by simp
    then have f: "\<lfloor>x\<rfloor> \<le> - 1" by (simp add: floor_le_iff)
    have "x - of_int \<lfloor>x\<rfloor> < 1" by linarith
    with f show ?thesis by (auto simp: round_even_def Let_def)
  qed
qed

lemma round_double_nonneg:
  assumes "0 \<le> x"
  shows "round_double x = PInf \<or> (\<exists>y\<ge>0. round_double x = Fin y)"
proof (cases "x = 0")
  case True
  then show ?thesis by (simp add: round_double_def)
next
  case False
  with assms have x: "0 < x" by simp
  have p: "(0::real) < 2 powi quantum x" by simp
  with x have "0 \<le> x / 2 powi quantum x" by simp
  then have "0 \<le> round_even (x / 2 powi quantum x)" by (rule round_even_nonneg)
  then have "(0::real) \<le> of_int (round_even (x / 2 powi quantum x)) * 2 powi quantum x"
    using p by simp
  with x show ?thesis by (auto simp: round_double_def round_at_def round_scaled_def)
qed

lemma round_double_nonpos:
  assumes "x \<le> 0"
  shows "round_double x = NInf \<or> (\<exists>y\<le>0. round_double x = Fin y)"
proof (cases "x = 0")
  case True
  then show ?thesis by (simp add: round_double_def)
next
  case False
  with assms have x: "x < 0" by simp
  have p: "(0::real) < 2 powi quantum x" by simp
  with x have "x / 2 powi quantum x \<le> 0" by (simp add: divide_nonpos_pos)
  then have "round_even (x / 2 powi quantum x) \<le> 0" by (rule round_even_nonpos)
  then have "of_int (round_even (x / 2 powi quantum x)) * 2 powi quantum x \<le> (0::real)"
    using p by (simp add: mult_nonpos_nonneg)
  with x show ?thesis by (auto simp: round_double_def round_at_def round_scaled_def)
qed

text \<open>An integer of less than 54 bits is a double.\<close>

lemma round_double_of_int:
  assumes "\<bar>k\<bar> < 2 ^ 53"
  shows "round_double (of_int k) = Fin (of_int k)"
proof (cases "k = 0")
  case True
  then show ?thesis by (simp add: round_double_def)
next
  case False
  then have k: "0 < \<bar>k\<bar>" by simp
  define b where "b = bitlen \<bar>k\<bar>"
  have b1: "1 \<le> b" using k by (simp add: b_def bitlen_alt_def)
  have b53: "b \<le> 53" using assms by (simp add: b_def bitlen_le_iff_power)
  have il: "ilog2 (of_int k) = b - 1"
  proof -
    have "1 \<le> \<bar>real_of_int k\<bar>" using k by linarith
    moreover have "\<lfloor>\<bar>real_of_int k\<bar>\<rfloor> = \<bar>k\<bar>" by (metis floor_of_int of_int_abs)
    ultimately show ?thesis by (simp add: ilog2_def b_def)
  qed
  have q: "quantum (of_int k) = b - 53" using b1 by (simp add: quantum_def il)
  define c where "c = nat (53 - b)"
  have pw: "(2::real) powi (b - 53) = 1 / 2 ^ c"
    using b53 by (simp add: c_def power_int_def inverse_eq_divide power_one_over nat_diff_distrib)
  have dv: "real_of_int k / 2 powi (b - 53) = of_int (k * 2 ^ c)"
    by (simp add: pw)
  have n: "round_even (real_of_int k / 2 powi (b - 53)) = k * 2 ^ c"
    unfolding dv by (rule round_even_of_int)
  have bl: "bitlen \<bar>k * 2 ^ c\<bar> = b + int c"
    using bitlen_pow2[OF k, of c] by (simp add: abs_mult b_def)
  have tot: "b - 53 + bitlen \<bar>k * 2 ^ c\<bar> = b"
    unfolding bl using b53 by (simp add: c_def)
  have bk: "real_of_int (k * 2 ^ c) * 2 powi (b - 53) = of_int k"
    by (simp add: pw)
  have rd: "round_double (of_int k) =
      (if 1024 < quantum (of_int k) + bitlen \<bar>round_even (of_int k / 2 powi quantum (of_int k))\<bar>
       then (if 0 < real_of_int k then PInf else NInf)
       else Fin (of_int (round_even (of_int k / 2 powi quantum (of_int k))) *
                 2 powi quantum (of_int k)))"
    using False by (simp add: round_double_def round_at_def round_scaled_def)
  show ?thesis unfolding rd q n tot bk using b53 by simp
qed

lemma round_double_of_nat: "n < 2 ^ 53 \<Longrightarrow> round_double (real n) = Fin (real n)"
  using round_double_of_int[of "int n"] by simp

lemma round_double_one: "round_double 1 = Fin 1"
  using round_double_of_int[of 1] by simp

subsection \<open>The guards and the estimates of \<^verbatim>\<open>steal_work\<close>\<close>

lemma steal_guardsD:
  assumes "steal_guards idle m d s src task"
  shows "d < length (workers m)" "s < length (workers m)" "src = workers m ! s"
    "task \<in> set (pending src)" "task \<in> set (work (workers m ! s))" "d = nat idle" "0 \<le> idle"
proof -
  from assms have a: "at_index (workers m) idle = Some d"
    and b: "max_element PendingCompare (workers m) = Some (s, src)"
    and c: "\<exists>i. max_element WeightCompare (pending src) = Some (i, task)"
    by (auto simp: steal_guards_def)+
  from a show "d < length (workers m)" "d = nat idle" "0 \<le> idle"
    by (auto simp: at_index_def split: if_splits)
  from max_element_later[OF b] show s: "s < length (workers m)" "src = workers m ! s" by auto
  from c obtain i where "max_element WeightCompare (pending src) = Some (i, task)" by blast
  from max_element_later[OF this] show t: "task \<in> set (pending src)" by auto
  with s show "task \<in> set (work (workers m ! s))" by (simp add: in_pending)
qed

lemma steal_guards_idle:
  assumes "steal_guards idle m d s src task" "num_pending (workers m ! nat idle) = 0"
  shows "s \<noteq> d"
proof
  assume "s = d"
  with steal_guardsD(3,6)[OF assms(1)] assms(2) have "num_pending src = 0" by simp
  with assms(1) show False by (simp add: steal_guards_def)
qed

lemma steal_work_guarded:
  assumes "steal_guards idle m d s src task" "rd_table r = Some tb"
  shows "steal_work r idle avg m =
     (if dle (eta (pending src) avg (average_size (numShards tb)))
             (move_cost task avg (average_size (numShards tb)))
      then Ok False m else migrate s d task m)"
  using assms by (auto simp: steal_work_def steal_guards_def)

lemma steal_work_Ok:
  assumes "steal_work r idle avg m = Ok b m'"
  shows "(\<not> b \<and> m' = m) \<or>
     (b \<and> (\<exists>d s src task tb. steal_guards idle m d s src task \<and> rd_table r = Some tb \<and>
        \<not> dle (eta (pending src) avg (average_size (numShards tb)))
               (move_cost task avg (average_size (numShards tb))) \<and>
        migrate s d task m = Ok True m'))"
proof (cases b)
  case False
  with assms have "m' = m"
    by (auto simp: steal_work_def migrate_not_False split: if_splits option.splits prod.splits)
  with False show ?thesis by simp
next
  case True
  with assms show ?thesis
    by (auto simp: steal_work_def steal_guards_def split: if_splits option.splits prod.splits)
qed

lemma foldl_add_one:
  "k + length ns < 2 ^ 53 \<Longrightarrow>
   foldl (\<lambda>a _. dadd a (Fin 1)) (Fin (real k)) ns = Fin (real (k + length ns))"
proof (induction ns arbitrary: k)
  case Nil
  then show ?case by simp
next
  case (Cons a ns)
  have e: "real k + 1 = real (Suc k)" by simp
  have b: "Suc k < 2 ^ 53" using Cons.prems by simp
  have c: "Suc k + length ns < 2 ^ 53" using Cons.prems by simp
  have "dadd (Fin (real k)) (Fin 1) = round_double (real k + 1)" by simp
  also have "\<dots> = round_double (real (Suc k))" by (simp only: e)
  also have "\<dots> = Fin (real (Suc k))" by (rule round_double_of_nat[OF b])
  finally have d: "dadd (Fin (real k)) (Fin 1) = Fin (real (Suc k))" .
  have "foldl (\<lambda>a _. dadd a (Fin 1)) (Fin (real k)) (a # ns) =
      foldl (\<lambda>a _. dadd a (Fin 1)) (Fin (real (Suc k))) ns"
    by (simp only: foldl_Cons d)
  also have "\<dots> = Fin (real (Suc k + length ns))"
    by (rule Cons.IH[OF c])
  finally show ?case by simp
qed

lemma average_size_pos:
  assumes "0 < n" "n < 2 ^ 53"
  shows "average_size n = Fin 1"
proof -
  have "foldl (\<lambda>a _. dadd a (Fin 1)) (Fin 0) [0..<n] = Fin (real n)"
    using foldl_add_one[of 0 "[0..<n]"] assms(2) by simp
  moreover have "double_of_int (int n) = Fin (real n)"
    using round_double_of_nat[OF assms(2)] by (simp add: double_of_int_def)
  ultimately show ?thesis using assms(1) by (simp add: average_size_def round_double_one)
qed

lemma average_size_zero: "average_size 0 = NaN"
  by (simp add: average_size_def double_of_int_def round_double_def)

lemma std_max_not_below: "not_below (std_max (Fin 1) x)"
  by (cases x) (auto simp: std_max_def)

lemma round_double_not_below: "0 \<le> x \<Longrightarrow> not_below (round_double x)"
  using round_double_nonneg[of x] by auto

lemma dadd_not_below: "not_below a \<Longrightarrow> not_below b \<Longrightarrow> not_below (dadd a b)"
  by (cases a; cases b) (auto intro: round_double_not_below)

lemma eta_not_below_aux:
  "not_below e \<Longrightarrow> not_below (foldl (\<lambda>e p. dadd e (std_max (Fin 1) (g p))) e ps)"
  by (induction ps arbitrary: e) (auto intro: dadd_not_below std_max_not_below)

lemma eta_not_below: "not_below (eta ps avg sz)"
  unfolding eta_def by (rule eta_not_below_aux) simp

lemma move_cost_not_below: "not_below (move_cost t avg sz)"
  unfolding move_cost_def by (rule std_max_not_below)

lemma not_dle_dgreater: "not_below a \<Longrightarrow> not_below b \<Longrightarrow> (\<not> dle a b) = dgreater a b"
  by (cases a; cases b) (auto simp: dle_def dgreater_def)

lemma migrated_effects:
  assumes "s < length (workers m)" "d < length (workers m)" "s \<noteq> d"
    "task \<in> set (work (workers m ! s))"
  shows "length (workers (migrated s d task m)) = length (workers m) \<and>
     map_find (id_task task) (work (workers (migrated s d task m) ! d)) = Some (task\<lparr>stolen := True\<rparr>) \<and>
     map_find (id_task task) (work (workers (migrated s d task m) ! s)) = None \<and>
     work (workers (migrated s d task m) ! s) = map_erase (id_task task) (work (workers m ! s)) \<and>
     work (workers (migrated s d task m) ! d) = map_put (task\<lparr>stolen := True\<rparr>) (work (workers m ! d)) \<and>
     shards (workers (migrated s d task m) ! s) =
       shards (workers m ! s) - shard_ids (tables m) (shard (id_task task)) \<and>
     shards (workers (migrated s d task m) ! d) =
       shards (workers m ! d) \<union> shard_ids (tables m) (shard (id_task task)) \<and>
     (\<forall>k<length (workers m). k \<noteq> s \<and> k \<noteq> d \<longrightarrow> workers (migrated s d task m) ! k = workers m ! k)"
proof -
  have "map_find (id_task (task\<lparr>stolen := True\<rparr>)) (map_put (task\<lparr>stolen := True\<rparr>) (work (workers m ! d)))
      = Some (task\<lparr>stolen := True\<rparr>)"
    by (rule map_find_map_put_same)
  then show ?thesis
    using assms by (simp add: migrated_def map_find_map_erase)
qed

lemma steal_work_returns:
  assumes "at_index (workers m) idle_worker \<noteq> None" and "rd_table r \<noteq> None"
    and "distinct (map fst (tables m))" and "serves_own_tasks m"
    and "num_pending (workers m ! nat idle_worker) = 0"
  shows "is_Ok (steal_work r idle_worker avg m)"
proof -
  from assms(1) obtain d where d: "at_index (workers m) idle_worker = Some d" by blast
  then have dn: "d = nat idle_worker" "d < length (workers m)"
    by (auto simp: at_index_def split: if_splits)
  from assms(2) obtain tb where tb: "rd_table r = Some tb" by blast
  have ne: "workers m \<noteq> []" using dn by auto
  from max_element_Some[OF ne] obtain s src where
    ps: "max_element PendingCompare (workers m) = Some (s, src)" by blast
  show ?thesis
  proof (cases "FLAGS_work_stealing m \<and> alive (dead_workers m) (workers m ! d) \<and> num_pending src \<noteq> 0")
    case False
    then show ?thesis using d ps by (auto simp: steal_work_def)
  next
    case True
    then have "pending src \<noteq> []"
      by (auto simp: num_pending_def num_with_def pending_def tasks_with_def)
    from max_element_Some[OF this] obtain i task where
      t: "max_element WeightCompare (pending src) = Some (i, task)" by blast
    show ?thesis
    proof (cases "stolen task")
      case st: True
      then show ?thesis using True d ps t by (auto simp: steal_work_def)
    next
      case False
      then have g: "steal_guards idle_worker m d s src task"
        using True d ps t by (auto simp: steal_guards_def)
      note gd = steal_guardsD[OF g]
      have sd: "s \<noteq> d" using steal_guards_idle[OF g assms(5)] .
      have sub: "shard_ids (tables m) (shard (id_task task)) \<subseteq> shards (workers m ! s)"
        using assms(4) gd(2,5) by (auto simp: serves_own_tasks_def)
      from migrate_Ok[OF gd(2) gd(1) sd assms(3) sub gd(5)]
      have mg: "migrate s d task m = Ok True (migrated s d task m)" .
      show ?thesis
        using steal_work_guarded[OF g tb, of avg] mg by auto
    qed
  qed
qed

lemma steal_work_True_idle:
  assumes "steal_work r idle_worker avg m = Ok True m'"
    and "num_pending (workers m ! nat idle_worker) = 0"
  shows "\<exists>s src task. steal_guards idle_worker m (nat idle_worker) s src task \<and> s \<noteq> nat idle_worker \<and>
     m' = migrated s (nat idle_worker) task m"
proof -
  from steal_work_Ok[OF assms(1)] obtain d s src task where
    g: "steal_guards idle_worker m d s src task" and mg: "migrate s d task m = Ok True m'" by auto
  note gd = steal_guardsD[OF g]
  have sd: "s \<noteq> d" using steal_guards_idle[OF g assms(2)] .
  from migrate_OkD[OF mg gd(2) gd(1) sd] have "m' = migrated s d task m" by simp
  with g sd show ?thesis unfolding gd(6) by blast
qed

subsection \<open>The loops of \<^verbatim>\<open>assign_worker\<close>\<close>

lemma first_index_Some:
  "first_index P xs = Some i \<Longrightarrow> i < length xs \<and> P (xs ! i) \<and> (\<forall>j<i. \<not> P (xs ! j))"
proof (induction xs arbitrary: i)
  case Nil
  then show ?case by simp
next
  case (Cons x xs)
  show ?case
  proof (cases "P x")
    case True
    with Cons.prems show ?thesis by simp
  next
    case False
    with Cons.prems obtain i' where i': "first_index P xs = Some i'" "i = Suc i'" by auto
    from Cons.IH[OF i'(1)] False i'(2) show ?thesis
      by (auto simp: nth_Cons split: nat.splits)
  qed
qed

lemma first_index_None: "(first_index P xs = None) = (\<forall>x\<in>set xs. \<not> P x)"
  by (induction xs) auto

lemma best_loop_append:
  "best_loop dead ws (xs @ ys) best = best_loop dead ws ys (best_loop dead ws xs best)"
  by (induction xs arbitrary: best) simp_all

lemma best_loop_upto:
  "(best_loop dead ws [0..<n] None = None \<longrightarrow> (\<forall>k<n. \<not> alive dead (ws ! k))) \<and>
   (\<forall>b. best_loop dead ws [0..<n] None = Some b \<longrightarrow>
      b < n \<and> alive dead (ws ! b) \<and>
      (\<forall>k<n. alive dead (ws ! k) \<longrightarrow> card (shards (ws ! b)) \<le> card (shards (ws ! k))) \<and>
      (\<forall>k<b. alive dead (ws ! k) \<longrightarrow> card (shards (ws ! b)) < card (shards (ws ! k))))"
proof (induction n)
  case 0
  then show ?case by simp
next
  case (Suc n)
  let ?r = "best_loop dead ws [0..<n] None"
  have step: "best_loop dead ws [0..<Suc n] None =
      (if alive dead (ws ! n) \<and>
          (case ?r of None \<Rightarrow> True | Some b \<Rightarrow> card (shards (ws ! n)) < card (shards (ws ! b)))
       then Some n else ?r)"
    by (simp add: best_loop_append)
  show ?case
  proof (cases ?r)
    case None
    with Suc have na: "\<forall>k<n. \<not> alive dead (ws ! k)" by simp
    show ?thesis
      unfolding step using None na by (auto simp: less_Suc_eq)
  next
    case (Some b)
    with Suc have b: "b < n" "alive dead (ws ! b)"
      "\<forall>k<n. alive dead (ws ! k) \<longrightarrow> card (shards (ws ! b)) \<le> card (shards (ws ! k))"
      "\<forall>k<b. alive dead (ws ! k) \<longrightarrow> card (shards (ws ! b)) < card (shards (ws ! k))"
      by auto
    show ?thesis
    proof (cases "alive dead (ws ! n) \<and> card (shards (ws ! n)) < card (shards (ws ! b))")
      case True
      then have r: "best_loop dead ws [0..<Suc n] None = Some n"
        unfolding step using Some by simp
      have "\<forall>k<Suc n. alive dead (ws ! k) \<longrightarrow> card (shards (ws ! n)) \<le> card (shards (ws ! k))"
        using b(3) True by (auto simp: less_Suc_eq intro: order.trans less_imp_le)
      moreover have "\<forall>k<n. alive dead (ws ! k) \<longrightarrow> card (shards (ws ! n)) < card (shards (ws ! k))"
        using b(3) True by (auto intro: less_le_trans)
      ultimately show ?thesis using r True by simp
    next
      case False
      then have r: "best_loop dead ws [0..<Suc n] None = Some b"
        unfolding step using Some by auto
      have "\<forall>k<Suc n. alive dead (ws ! k) \<longrightarrow> card (shards (ws ! b)) \<le> card (shards (ws ! k))"
        using b(3) False by (auto simp: less_Suc_eq)
      then show ?thesis using r b by simp
    qed
  qed
qed

subsection \<open>Work maps: order, ids and counts\<close>

lemma taskid_less_trans: "taskid_less a b \<Longrightarrow> taskid_less b c \<Longrightarrow> taskid_less a c"
  by (auto simp: taskid_less_def)

lemma ids_map_put: "id_task ` set (map_put s ts) = insert (id_task s) (id_task ` set ts)"
  by (induction ts) (auto dest: taskid_less_total)

lemma sorted_map_put:
  "sorted_wrt taskid_less (map id_task ts) \<Longrightarrow> sorted_wrt taskid_less (map id_task (map_put s ts))"
proof (induction ts)
  case Nil
  then show ?case by simp
next
  case (Cons t ts)
  show ?case
  proof (cases "taskid_less (id_task s) (id_task t)")
    case True
    with Cons.prems show ?thesis by (auto intro: taskid_less_trans)
  next
    case False
    show ?thesis
    proof (cases "taskid_less (id_task t) (id_task s)")
      case True
      have "\<forall>x\<in>id_task ` set (map_put s ts). taskid_less (id_task t) x"
        using Cons.prems True by (auto simp: ids_map_put)
      with False True Cons show ?thesis by auto
    next
      case nl: False
      with False have "id_task s = id_task t" by (auto dest: taskid_less_total)
      with False nl Cons.prems show ?thesis by simp
    qed
  qed
qed

lemma sorted_map_erase:
  "sorted_wrt taskid_less (map id_task ts) \<Longrightarrow> sorted_wrt taskid_less (map id_task (map_erase k ts))"
  by (induction ts) (auto simp: map_erase_def)

lemma sorted_ids_distinct:
  "sorted_wrt taskid_less (map id_task ts) \<Longrightarrow> distinct (map id_task ts)"
  by (induction ts) (auto simp: taskid_less_irrefl)

lemma map_find_distinct:
  "distinct (map id_task ts) \<Longrightarrow> t \<in> set ts \<Longrightarrow> map_find (id_task t) ts = Some t"
  by (induction ts) (auto simp: image_iff)

lemma ids_map_erase: "id_task ` set (map_erase k ts) = id_task ` set ts - {k}"
  by (auto simp: map_erase_def)

lemma set_map_modify_ids:
  "(\<And>t. id_task (f t) = id_task t) \<Longrightarrow> id_task ` set (map_modify k f ts) = id_task ` set ts"
  by (induction ts) auto

lemma cnt_modify:
  "map_find k ts = Some t \<Longrightarrow>
   cnt st (map_modify k (\<lambda>t. t\<lparr>status := st'\<rparr>) ts) + (if status t = st then 1 else 0) =
   cnt st ts + (if st' = st then 1 else 0)"
  by (induction ts) (auto simp: cnt_def split: if_splits)

lemma cnt_map_erase: "cnt st (map_erase k ts) \<le> cnt st ts"
  by (induction ts) (auto simp: cnt_def map_erase_def)

lemma cnt_map_put: "status s \<noteq> st \<Longrightarrow> cnt st (map_put s ts) \<le> cnt st ts"
  by (induction ts) (auto simp: cnt_def)

lemma cnt_map_modify_other:
  "(\<And>t. status (f t) = status t) \<Longrightarrow> cnt st (map_modify k f ts) = cnt st ts"
  by (induction ts) (auto simp: cnt_def)

subsection \<open>The effect of the operations on the work maps\<close>

lemma num_with_cnt: "num_with st w = cnt st (work w)"
  by (simp add: num_with_def cnt_def)

lemma assign_worker_works:
  assumes "assign_worker tb sh m = Ok i m'"
  shows "i < length (workers m) \<and>
     works m' = (works m)[i := map_put (new_TaskState (Taskid tb sh) 1) (works m ! i)]"
proof (cases "worker_for_shard m tb sh")
  case (Some j)
  then have "first_index (\<lambda>w. serves w (Taskid tb sh)) (workers m) = Some j"
    by (simp add: worker_for_shard_def)
  from first_index_Some[OF this] have j: "j < length (workers m)" by simp
  with assms Some show ?thesis
    by (auto simp: assign_worker_def assign_task_def map_update)
next
  case None
  let ?r = "best_loop (dead_workers m) (workers m) [0..<length (workers m)] None"
  from assms None obtain b where b: "?r = Some b"
    by (cases ?r) (auto simp: assign_worker_def)
  with best_loop_upto[of "dead_workers m" "workers m" "length (workers m)"]
  have bl: "b < length (workers m)" by auto
  with assms None b show ?thesis
    by (auto simp: assign_worker_def assign_task_def assign_shard_def assign_shard_set_insert
        map_update split: if_splits)
qed

lemma migrate_works:
  assumes "migrate s d task m = Ok b m'" "s < length (workers m)" "d < length (workers m)"
  shows "works m' = moved s d task (works m)"
proof (cases "s = d")
  case True
  with assms show ?thesis
    by (auto simp: migrate_def moved_def Let_def assign_shard_def assign_shard_set_insert
        remove_task_def assign_task_def map_find_map_modify map_erase_map_modify map_update
        split: option.splits)
next
  case False
  from migrate_OkD[OF assms False] have "m' = migrated s d task m" by simp
  with assms(2,3) False show ?thesis
    by (simp add: migrated_def moved_def map_update)
qed

lemma steal_work_works:
  assumes "steal_work r idle avg m = Ok b m'"
  shows "(\<not> b \<and> m' = m) \<or>
     (b \<and> (\<exists>d s src task. steal_guards idle m d s src task \<and> works m' = moved s d task (works m)))"
proof -
  from steal_work_Ok[OF assms] show ?thesis
  proof
    assume "\<not> b \<and> m' = m"
    then show ?thesis by simp
  next
    assume "b \<and> (\<exists>d s src task tb. steal_guards idle m d s src task \<and> rd_table r = Some tb \<and>
        \<not> dle (eta (pending src) avg (average_size (numShards tb)))
               (move_cost task avg (average_size (numShards tb))) \<and>
        migrate s d task m = Ok True m')"
    then obtain d s src task where b: "b" and g: "steal_guards idle m d s src task"
      and mg: "migrate s d task m = Ok True m'" by blast
    note gd = steal_guardsD[OF g]
    from migrate_works[OF mg gd(2) gd(1)] b g show ?thesis by blast
  qed
qed

lemma reap_works:
  assumes "reap_one_task env m = Ok r m'"
  shows "works m' = works m \<or>
     (\<exists>i k t. i < length (workers m) \<and> map_find k (works m ! i) = Some t \<and> status t = ACTIVE \<and>
        works m' = (works m)[i := map_modify k (\<lambda>t. t\<lparr>status := FINISHED\<rparr>) (works m ! i)])"
proof (cases "kernel_done_in env (n_done m)")
  case None
  with assms show ?thesis by (auto simp: reap_one_task_def)
next
  case (Some a)
  obtain src done_msg where a: "a = (src, done_msg)" by (cases a)
  let ?k = "Taskid (kr_table (kd_kernel done_msg)) (kr_shard (kd_kernel done_msg))"
  from assms Some a obtain i where i: "at_index (workers m) (src - 1) = Some i"
    by (cases "at_index (workers m) (src - 1)") (auto simp: reap_one_task_def Let_def)
  then have il: "i < length (workers m)" by (auto simp: at_index_def split: if_splits)
  from assms Some a i obtain w where w: "set_finished ?k (workers m ! i) = Inr w"
    by (cases "set_finished ?k (workers m ! i)")
       (auto simp: reap_one_task_def Let_def split: if_splits)
  then obtain t where t: "map_find ?k (work (workers m ! i)) = Some t" "status t = ACTIVE"
    "work w = map_modify ?k (\<lambda>t. t\<lparr>status := FINISHED\<rparr>) (work (workers m ! i))"
    by (auto simp: set_finished_def split: option.splits if_splits)
  have "works m' = (works m)[i := map_modify ?k (\<lambda>t. t\<lparr>status := FINISHED\<rparr>) (works m ! i)]"
    using assms Some a i w t(3) il
    by (auto simp: reap_one_task_def Let_def Now_def ping_def map_update split: if_splits)
  moreover have "map_find ?k (works m ! i) = Some t" using t(1) il by simp
  ultimately have "\<exists>i k t. i < length (workers m) \<and> map_find k (works m ! i) = Some t \<and>
      status t = ACTIVE \<and>
      works m' = (works m)[i := map_modify k (\<lambda>t. t\<lparr>status := FINISHED\<rparr>) (works m ! i)]"
    using il t(2) by blast
  then show ?thesis by blast
qed

lemma pending_nonempty: "0 < num_pending w \<Longrightarrow> pending w \<noteq> []"
  by (auto simp: num_pending_def num_with_def pending_def tasks_with_def)

lemma get_next_work:
  assumes "0 < num_pending w" "num_active w = 0" "get_next r now req w = Some (b, w', req')"
  shows "work w' = dispatched_work w"
proof -
  from max_element_Some[OF pending_nonempty[OF assms(1)]] obtain i best where
    m: "max_element WeightCompare (pending w) = Some (i, best)" by blast
  with assms show ?thesis
    by (auto simp: get_next_def dispatched_work_def split: option.splits)
qed

lemma dispatch_loop_works:
  assumes "dispatch_loop env r is n req m = Ok n' m'" "distinct is" "\<forall>i\<in>set is. i < length (workers m)"
  shows "length (workers m') = length (workers m) \<and>
     (\<forall>k<length (workers m). work (workers m' ! k) =
        (if k \<in> set is then dispatched_work (workers m ! k) else work (workers m ! k)))"
  using assms
proof (induction "is" arbitrary: n req m)
  case Nil
  then show ?case by simp
next
  case (Cons i rest)
  show ?case
  proof (cases "num_pending (workers m ! i) > 0 \<and> num_active (workers m ! i) = 0")
    case False
    with Cons.prems have r: "dispatch_loop env r rest n req m = Ok n' m'" by auto
    from Cons.IH[OF r] Cons.prems(2,3)
    have ih: "length (workers m') = length (workers m)"
      "\<forall>k<length (workers m). work (workers m' ! k) =
        (if k \<in> set rest then dispatched_work (workers m ! k) else work (workers m ! k))"
      by auto
    have "dispatched_work (workers m ! i) = work (workers m ! i)"
      using False by (auto simp: dispatched_work_def)
    with ih Cons.prems(2) show ?thesis by auto
  next
    case True
    from Cons.prems(1) True obtain b w req' where
      g: "get_next r (Fin (clock env (n_now m))) req (workers m ! i) = Some (b, w, req')"
      by (cases "get_next r (Fin (clock env (n_now m))) req (workers m ! i)") (auto simp: Now_def)
    let ?m2 = "m\<lparr>n_now := Suc (n_now m), workers := (workers m)[i := w],
                  sent := sent m @ [RUN_KERNEL (id_worker w + 1) req']\<rparr>"
    from Cons.prems(1) True g have r: "dispatch_loop env r rest (Suc n) req' ?m2 = Ok n' m'"
      by (simp add: Now_def)
    have il: "i < length (workers m)" using Cons.prems(3) by simp
    from Cons.IH[OF r] Cons.prems(2,3)
    have ih: "length (workers m') = length (workers m)"
      "\<forall>k<length (workers m). work (workers m' ! k) =
        (if k \<in> set rest then dispatched_work ((workers m)[i := w] ! k) else work ((workers m)[i := w] ! k))"
      by auto
    have ww: "work w = dispatched_work (workers m ! i)"
      using get_next_work[OF _ _ g] True by simp
    have "\<forall>k<length (workers m). work (workers m' ! k) =
        (if k \<in> set (i # rest) then dispatched_work (workers m ! k) else work (workers m ! k))"
    proof (intro allI impI)
      fix k assume k: "k < length (workers m)"
      show "work (workers m' ! k) =
        (if k \<in> set (i # rest) then dispatched_work (workers m ! k) else work (workers m ! k))"
      proof (cases "k = i")
        case True
        then have "k \<notin> set rest" using Cons.prems(2) by simp
        with ih(2) k True il ww show ?thesis by simp
      next
        case False
        with ih(2) k show ?thesis by simp
      qed
    qed
    with ih(1) show ?thesis by simp
  qed
qed

lemma dispatch_work_works:
  assumes "dispatch_work env r m = Ok n m'"
  shows "works m' = map dispatched_work (workers m)"
proof -
  from assms have "dispatch_loop env r [0..<length (workers m)] 0 default_KernelRequest m = Ok n m'"
    by (simp add: dispatch_work_def)
  from dispatch_loop_works[OF this]
  have a: "length (workers m') = length (workers m)"
    "\<forall>k<length (workers m). work (workers m' ! k) = dispatched_work (workers m ! k)"
    by auto
  show ?thesis
    by (rule nth_equalityI) (use a in auto)
qed

lemma dispatched_work_find:
  assumes "0 < num_pending w" "num_active w = 0"
  shows "\<exists>best t0. best \<in> set (work w) \<and> status best = PENDING \<and>
     (\<exists>i. max_element WeightCompare (pending w) = Some (i, best)) \<and>
     map_find (id_task best) (work w) = Some t0 \<and>
     dispatched_work w = map_modify (id_task best) (\<lambda>t. t\<lparr>status := ACTIVE\<rparr>) (work w)"
proof -
  from max_element_Some[OF pending_nonempty[OF assms(1)]] obtain i best where
    m: "max_element WeightCompare (pending w) = Some (i, best)" by blast
  from max_element_later[OF m] have "best \<in> set (pending w)" by auto
  then have b: "best \<in> set (work w)" "status best = PENDING" by (auto dest: in_pending)
  then obtain t0 where "map_find (id_task best) (work w) = Some t0"
    by (cases "map_find (id_task best) (work w)") (auto simp: map_find_None)
  with m b assms show ?thesis by (auto simp: dispatched_work_def)
qed

lemma dispatched_work_ids: "map id_task (dispatched_work w) = map id_task (work w)"
  by (auto simp: dispatched_work_def ids_map_modify split: option.splits)

lemma dispatched_work_active: "cnt ACTIVE (work w) \<le> 1 \<Longrightarrow> cnt ACTIVE (dispatched_work w) \<le> 1"
proof (cases "0 < num_pending w \<and> num_active w = 0")
  case False
  assume "cnt ACTIVE (work w) \<le> 1"
  with False show ?thesis by (auto simp: dispatched_work_def)
next
  case True
  from dispatched_work_find[of w] True obtain best :: TaskState and t0 where
    f: "map_find (id_task best) (work w) = Some t0"
    and d: "dispatched_work w = map_modify (id_task best) (\<lambda>t. t\<lparr>status := ACTIVE\<rparr>) (work w)"
    by auto
  from True have z: "cnt ACTIVE (work w) = 0" by (simp add: num_active_def num_with_cnt)
  from cnt_modify[OF f, of ACTIVE ACTIVE] z d show ?thesis by (auto split: if_splits)
qed

subsection \<open>Invariants of the work maps\<close>

lemma maps_sorted_update:
  "maps_sorted W \<Longrightarrow> sorted_wrt taskid_less (map id_task ts) \<Longrightarrow> maps_sorted (W[i := ts])"
  unfolding maps_sorted_def using set_update_subset_insert[of W i ts] by auto

lemma one_active_update:
  "one_active W \<Longrightarrow> cnt ACTIVE ts \<le> 1 \<Longrightarrow> one_active (W[i := ts])"
  unfolding one_active_def using set_update_subset_insert[of W i ts] by auto

lemma maps_apart_update:
  assumes "maps_apart W" "d < length W"
    and "\<forall>j<length W. j \<noteq> d \<longrightarrow> k \<notin> id_task ` set (W ! j)"
    and "id_task ` set ts \<subseteq> insert k (id_task ` set (W ! d))"
  shows "maps_apart (W[d := ts])"
  unfolding maps_apart_def
proof (intro allI impI)
  fix i j assume i: "i < length (W[d := ts])" and j: "j < length (W[d := ts])" and ij: "i \<noteq> j"
  have a: "id_task ` set (W ! i) \<inter> id_task ` set (W ! j) = {}"
    using assms(1) i j ij by (simp add: maps_apart_def)
  show "id_task ` set (W[d := ts] ! i) \<inter> id_task ` set (W[d := ts] ! j) = {}"
  proof (cases "i = d")
    case True
    with ij have jd: "j \<noteq> d" by simp
    have kn: "k \<notin> id_task ` set (W ! j)" using assms(3) j jd by simp
    have a': "id_task ` set (W ! d) \<inter> id_task ` set (W ! j) = {}" using a True by simp
    have "id_task ` set ts \<inter> id_task ` set (W ! j) = {}"
      using a' assms(4) kn by blast
    with True jd i show ?thesis by simp
  next
    case False
    show ?thesis
    proof (cases "j = d")
      case True
      have kn: "k \<notin> id_task ` set (W ! i)" using assms(3) i False by simp
      have a': "id_task ` set (W ! i) \<inter> id_task ` set (W ! d) = {}" using a True by simp
      have "id_task ` set (W ! i) \<inter> id_task ` set ts = {}"
        using a' assms(4) kn by blast
      with True False j show ?thesis by simp
    next
      case jd: False
      with False a show ?thesis by simp
    qed
  qed
qed

lemma maps_apart_shrink:
  assumes "maps_apart W" "d < length W" and "id_task ` set ts \<subseteq> id_task ` set (W ! d)"
  shows "maps_apart (W[d := ts])"
proof (cases "W ! d")
  case Nil
  with assms(3) have "ts = []" by simp
  with Nil assms(2) have "W[d := ts] = W" by (simp add: list_update_same_conv)
  with assms(1) show ?thesis by simp
next
  case (Cons t rest)
  have k: "\<forall>j<length W. j \<noteq> d \<longrightarrow> id_task t \<notin> id_task ` set (W ! j)"
  proof (intro allI impI)
    fix j assume "j < length W" "j \<noteq> d"
    with assms(1,2) have "id_task ` set (W ! d) \<inter> id_task ` set (W ! j) = {}"
      by (simp add: maps_apart_def)
    with Cons show "id_task t \<notin> id_task ` set (W ! j)" by auto
  qed
  show ?thesis
    by (rule maps_apart_update[OF assms(1,2) k]) (use assms(3) in auto)
qed

lemma maps_sorted_nth: "maps_sorted W \<Longrightarrow> i < length W \<Longrightarrow> sorted_wrt taskid_less (map id_task (W ! i))"
  by (simp add: maps_sorted_def)

lemma one_active_nth: "one_active W \<Longrightarrow> i < length W \<Longrightarrow> cnt ACTIVE (W ! i) \<le> 1"
  by (simp add: one_active_def)

lemma maps_sorted_moved:
  assumes "maps_sorted W" "s < length W" "d < length W"
  shows "maps_sorted (moved s d task W)"
proof -
  let ?W1 = "W[s := map_erase (id_task task) (W ! s)]"
  have 1: "maps_sorted ?W1"
    by (rule maps_sorted_update[OF assms(1) sorted_map_erase[OF maps_sorted_nth[OF assms(1,2)]]])
  have d1: "d < length ?W1" using assms(3) by simp
  have "maps_sorted (?W1[d := map_put (task\<lparr>stolen := True\<rparr>) (?W1 ! d)])"
    by (rule maps_sorted_update[OF 1 sorted_map_put[OF maps_sorted_nth[OF 1 d1]]])
  then show ?thesis by (simp add: moved_def)
qed

lemma one_active_moved:
  assumes "one_active W" "s < length W" "d < length W" "status task \<noteq> ACTIVE"
  shows "one_active (moved s d task W)"
proof -
  let ?W1 = "W[s := map_erase (id_task task) (W ! s)]"
  have e: "cnt ACTIVE (map_erase (id_task task) (W ! s)) \<le> 1"
    using cnt_map_erase[of ACTIVE "id_task task" "W ! s"] one_active_nth[OF assms(1,2)] by simp
  have 1: "one_active ?W1" by (rule one_active_update[OF assms(1) e])
  have d1: "d < length ?W1" using assms(3) by simp
  have p: "cnt ACTIVE (map_put (task\<lparr>stolen := True\<rparr>) (?W1 ! d)) \<le> 1"
    using cnt_map_put[of "task\<lparr>stolen := True\<rparr>" ACTIVE "?W1 ! d"] one_active_nth[OF 1 d1]
      assms(4) by simp
  have "one_active (?W1[d := map_put (task\<lparr>stolen := True\<rparr>) (?W1 ! d)])"
    by (rule one_active_update[OF 1 p])
  then show ?thesis by (simp add: moved_def)
qed

lemma maps_apart_moved:
  assumes "maps_apart W" "s < length W" "d < length W" "task \<in> set (W ! s)"
  shows "maps_apart (moved s d task W)"
proof -
  let ?tid = "id_task task"
  let ?W1 = "W[s := map_erase ?tid (W ! s)]"
  have sub: "id_task ` set (map_erase ?tid (W ! s)) \<subseteq> id_task ` set (W ! s)"
    by (auto simp: ids_map_erase)
  have 1: "maps_apart ?W1"
    by (rule maps_apart_shrink[OF assms(1,2) sub])
  have d1: "d < length ?W1" using assms(3) by simp
  have 2: "\<forall>j<length ?W1. j \<noteq> d \<longrightarrow> ?tid \<notin> id_task ` set (?W1 ! j)"
  proof (intro allI impI)
    fix j assume j: "j < length ?W1" and jd: "j \<noteq> d"
    show "?tid \<notin> id_task ` set (?W1 ! j)"
    proof (cases "j = s")
      case True
      with assms(2) show ?thesis by (simp add: ids_map_erase)
    next
      case False
      have "id_task ` set (W ! s) \<inter> id_task ` set (W ! j) = {}"
        using assms(1,2) j False by (simp add: maps_apart_def)
      with assms(4) False show ?thesis by auto
    qed
  qed
  have 3: "id_task ` set (map_put (task\<lparr>stolen := True\<rparr>) (?W1 ! d)) \<subseteq> insert ?tid (id_task ` set (?W1 ! d))"
    by (simp add: ids_map_put)
  have "maps_apart (?W1[d := map_put (task\<lparr>stolen := True\<rparr>) (?W1 ! d)])"
    by (rule maps_apart_update[OF 1 d1 2 3])
  then show ?thesis by (simp add: moved_def)
qed

lemma dispatched_work_id_set: "id_task ` set (dispatched_work w) = id_task ` set (work w)"
proof -
  have "set (map id_task (dispatched_work w)) = set (map id_task (work w))"
    by (simp only: dispatched_work_ids)
  then show ?thesis by simp
qed

lemma dispatch_invariants:
  assumes "maps_sorted (map work ws)" "maps_apart (map work ws)" "one_active (map work ws)"
  shows "maps_sorted (map dispatched_work ws) \<and> maps_apart (map dispatched_work ws) \<and>
     one_active (map dispatched_work ws)"
proof -
  have 1: "maps_sorted (map dispatched_work ws)"
    using assms(1) by (auto simp: maps_sorted_def dispatched_work_ids)
  have 2: "maps_apart (map dispatched_work ws)"
    using assms(2) by (auto simp: maps_apart_def dispatched_work_id_set)
  have 3: "one_active (map dispatched_work ws)"
    unfolding one_active_def
  proof
    fix ts assume "ts \<in> set (map dispatched_work ws)"
    then obtain w where w: "w \<in> set ws" "ts = dispatched_work w" by auto
    from assms(3) w(1) have "cnt ACTIVE (work w) \<le> 1" unfolding one_active_def by simp
    from dispatched_work_active[OF this] w(2) show "cnt ACTIVE ts \<le> 1" by simp
  qed
  from 1 2 3 show ?thesis by blast
qed

lemma modify_invariants:
  assumes "maps_sorted W" "maps_apart W" "i < length W"
    and f: "\<And>t. id_task (f t) = id_task t"
  shows "maps_sorted (W[i := map_modify k f (W ! i)]) \<and> maps_apart (W[i := map_modify k f (W ! i)])"
proof -
  have s: "sorted_wrt taskid_less (map id_task (map_modify k f (W ! i)))"
    using maps_sorted_nth[OF assms(1,3)] by (simp add: ids_map_modify[of f, OF f])
  have sub: "id_task ` set (map_modify k f (W ! i)) \<subseteq> id_task ` set (W ! i)"
    by (simp add: set_map_modify_ids[of f, OF f])
  from maps_sorted_update[OF assms(1) s] maps_apart_shrink[OF assms(2,3) sub]
  show ?thesis by blast
qed

lemma assign_workers_pending:
  assumes "assign_workers tb shs m = Ok u m'"
    and "maps_sorted (works m)" "\<forall>ts\<in>set (works m). \<forall>t\<in>set ts. status t = PENDING"
  shows "maps_sorted (works m') \<and> (\<forall>ts\<in>set (works m'). \<forall>t\<in>set ts. status t = PENDING)"
  using assms
proof (induction shs arbitrary: m)
  case Nil
  then show ?case by simp
next
  case (Cons sh shs)
  from Cons.prems(1) obtain i m1 where a: "assign_worker tb sh m = Ok i m1"
    and r: "assign_workers tb shs m1 = Ok u m'"
    by (cases "assign_worker tb sh m") (auto simp: rbind_def)
  let ?t = "new_TaskState (Taskid tb sh) 1"
  from assign_worker_works[OF a] have i: "i < length (works m)"
    and w: "works m1 = (works m)[i := map_put ?t (works m ! i)]" by simp_all
  have s1: "maps_sorted (works m1)"
    unfolding w by (rule maps_sorted_update[OF Cons.prems(2) sorted_map_put[OF maps_sorted_nth[OF Cons.prems(2) i]]])
  have "\<forall>t\<in>set (map_put ?t (works m ! i)). status t = PENDING"
  proof
    fix t assume "t \<in> set (map_put ?t (works m ! i))"
    with set_map_put[of ?t "works m ! i"] have "t = ?t \<or> t \<in> set (works m ! i)" by auto
    then show "status t = PENDING"
      using Cons.prems(3) i by (auto simp: new_TaskState_def)
  qed
  then have p1: "\<forall>ts\<in>set (works m1). \<forall>t\<in>set ts. status t = PENDING"
    unfolding w using Cons.prems(3) set_update_subset_insert[of "works m" i "map_put ?t (works m ! i)"]
    by blast
  from Cons.IH[OF r s1 p1] show ?case .
qed

lemma assign_workers_apart:
  assumes "assign_workers tb shs m = Ok u m'" "distinct shs"
    and "maps_apart (works m)" "\<forall>ts\<in>set (works m). id_task ` set ts \<subseteq> Taskid tb ` A"
    and "set shs \<inter> A = {}"
  shows "maps_apart (works m')"
  using assms
proof (induction shs arbitrary: m A)
  case Nil
  then show ?case by simp
next
  case (Cons sh shs)
  from Cons.prems(1) obtain i m1 where a: "assign_worker tb sh m = Ok i m1"
    and r: "assign_workers tb shs m1 = Ok u m'"
    by (cases "assign_worker tb sh m") (auto simp: rbind_def)
  let ?t = "new_TaskState (Taskid tb sh) 1"
  have idt: "id_task ?t = Taskid tb sh" by (simp add: new_TaskState_def)
  from assign_worker_works[OF a] have i: "i < length (works m)"
    and w: "works m1 = (works m)[i := map_put ?t (works m ! i)]" by simp_all
  have fresh: "\<forall>j<length (works m). j \<noteq> i \<longrightarrow> Taskid tb sh \<notin> id_task ` set (works m ! j)"
  proof (intro allI impI)
    fix j assume j: "j < length (works m)"
    then have "id_task ` set (works m ! j) \<subseteq> Taskid tb ` A"
      using Cons.prems(4) nth_mem[OF j] by blast
    moreover have "sh \<notin> A" using Cons.prems(5) by simp
    ultimately show "Taskid tb sh \<notin> id_task ` set (works m ! j)" by auto
  qed
  have sub: "id_task ` set (map_put ?t (works m ! i)) \<subseteq> insert (Taskid tb sh) (id_task ` set (works m ! i))"
    by (simp add: ids_map_put idt)
  have a1: "maps_apart (works m1)"
    unfolding w by (rule maps_apart_update[OF Cons.prems(3) i fresh sub])
  have ids1: "\<forall>ts\<in>set (works m1). id_task ` set ts \<subseteq> Taskid tb ` (insert sh A)"
  proof
    fix ts assume "ts \<in> set (works m1)"
    with w set_update_subset_insert[of "works m" i "map_put ?t (works m ! i)"]
    have "ts = map_put ?t (works m ! i) \<or> ts \<in> set (works m)" by auto
    then show "id_task ` set ts \<subseteq> Taskid tb ` (insert sh A)"
    proof
      assume "ts = map_put ?t (works m ! i)"
      moreover have "id_task ` set (works m ! i) \<subseteq> Taskid tb ` A"
        using Cons.prems(4) nth_mem[OF i] by blast
      ultimately show ?thesis using sub by blast
    next
      assume "ts \<in> set (works m)"
      with Cons.prems(4) show ?thesis by blast
    qed
  qed
  have d: "distinct shs" and dis: "set shs \<inter> insert sh A = {}"
    using Cons.prems(2,5) by auto
  from Cons.IH[OF r d a1 ids1 dis] show ?case .
qed

lemma assign_tasks_invariants:
  assumes "assign_tasks r shs m = Ok u m0"
  shows "maps_sorted (works m0) \<and> one_active (works m0) \<and> (distinct shs \<longrightarrow> maps_apart (works m0))"
proof -
  let ?m1 = "m\<lparr>workers := map clear_tasks (workers m)\<rparr>"
  have e: "\<forall>ts\<in>set (works ?m1). ts = []" by (auto simp: clear_tasks_def)
  have s1: "maps_sorted (works ?m1)" using e by (auto simp: maps_sorted_def)
  have p1: "\<forall>ts\<in>set (works ?m1). \<forall>t\<in>set ts. status t = PENDING" using e by auto
  have a1: "maps_apart (works ?m1)" by (auto simp: maps_apart_def clear_tasks_def)
  show ?thesis
  proof (cases shs)
    case Nil
    with assms have "m0 = ?m1" by (simp add: assign_tasks_def Let_def)
    with s1 a1 e show ?thesis by (auto simp: one_active_def cnt_def)
  next
    case (Cons sh rest)
    with assms obtain tb where tb: "rd_table r = Some tb"
      and w: "assign_workers (id_table tb) shs ?m1 = Ok u m0"
      by (cases "rd_table r") (auto simp: assign_tasks_def Let_def)
    from assign_workers_pending[OF w s1 p1]
    have s: "maps_sorted (works m0)" and p: "\<forall>ts\<in>set (works m0). \<forall>t\<in>set ts. status t = PENDING"
      by auto
    have o: "one_active (works m0)"
      unfolding one_active_def cnt_def
    proof
      fix ts assume "ts \<in> set (works m0)"
      with p have "filter (\<lambda>t. status t = ACTIVE) ts = []" by (auto simp: filter_empty_conv)
      then show "length (filter (\<lambda>t. status t = ACTIVE) ts) \<le> 1" by simp
    qed
    have ids: "\<forall>ts\<in>set (works ?m1). id_task ` set ts \<subseteq> Taskid (id_table tb) ` {}" using e by auto
    have "maps_apart (works m0)" if "distinct shs"
      by (rule assign_workers_apart[OF w that a1 ids]) simp
    with s o show ?thesis by blast
  qed
qed

lemma step_works:
  assumes "step env e m = Ok u m'"
  shows "works m' = works m
     \<or> (e = Reap \<and> (\<exists>i k t. i < length (works m) \<and> map_find k (works m ! i) = Some t \<and>
          status t = ACTIVE \<and>
          works m' = (works m)[i := map_modify k (\<lambda>t. t\<lparr>status := FINISHED\<rparr>) (works m ! i)]))
     \<or> (\<exists>idle avg d s src task. e = Steal idle avg \<and> steal_guards idle m d s src task \<and>
          returned (steal_work (current_run m) idle avg m) = Some True \<and>
          works m' = moved s d task (works m))
     \<or> (e = Dispatch \<and> works m' = map dispatched_work (workers m))"
proof (cases e)
  case Reap
  with assms obtain r where r: "reap_one_task env m = Ok r m'"
    by (cases "reap_one_task env m") (auto simp: step_def rbind_def)
  from reap_works[OF r] Reap show ?thesis by auto
next
  case (Steal idle avg)
  with assms obtain b where b: "steal_work (current_run m) idle avg m = Ok b m'"
    by (cases "steal_work (current_run m) idle avg m") (auto simp: step_def rbind_def)
  from steal_work_works[OF b] show ?thesis
  proof
    assume "\<not> b \<and> m' = m"
    then show ?thesis by simp
  next
    assume "b \<and> (\<exists>d s src task. steal_guards idle m d s src task \<and> works m' = moved s d task (works m))"
    then obtain d s src task where "b" and g: "steal_guards idle m d s src task"
      and w: "works m' = moved s d task (works m)" by blast
    with b have "returned (steal_work (current_run m) idle avg m) = Some True" by simp
    with Steal g w show ?thesis by blast
  qed
next
  case Dispatch
  with assms obtain n where n: "dispatch_work env (current_run m) m = Ok n m'"
    by (cases "dispatch_work env (current_run m) m") (auto simp: step_def rbind_def)
  from dispatch_work_works[OF n] Dispatch show ?thesis by simp
qed

lemma step_length: "step env e m = Ok u m' \<Longrightarrow> length (workers m') = length (workers m)"
proof -
  assume "step env e m = Ok u m'"
  from step_works[OF this] have "length (works m') = length (works m)"
  proof (elim disjE conjE exE)
    assume "works m' = map dispatched_work (workers m)"
    then have "length (works m') = length (map dispatched_work (workers m))" by (rule arg_cong)
    then show ?thesis by simp
  qed (simp_all add: moved_def del: length_map)
  then show ?thesis by simp
qed

lemma step_sorted:
  assumes "step env e m = Ok u m'" "maps_sorted (works m)"
  shows "maps_sorted (works m')"
proof -
  from step_works[OF assms(1)] consider
      (same) "works m' = works m"
    | (reap) i k where "i < length (works m)"
        "works m' = (works m)[i := map_modify k (\<lambda>t. t\<lparr>status := FINISHED\<rparr>) (works m ! i)]"
    | (steal) idle d s src task where "steal_guards idle m d s src task"
        "works m' = moved s d task (works m)"
    | (dispatch) "works m' = map dispatched_work (workers m)"
    by blast
  then show ?thesis
  proof cases
    case same
    with assms(2) show ?thesis by simp
  next
    case reap
    have "sorted_wrt taskid_less (map id_task (map_modify k (\<lambda>t. t\<lparr>status := FINISHED\<rparr>) (works m ! i)))"
      using maps_sorted_nth[OF assms(2) reap(1)] by (simp add: ids_map_modify)
    from maps_sorted_update[OF assms(2) this] reap(2) show ?thesis by simp
  next
    case steal
    note gd = steal_guardsD[OF steal(1)]
    have "s < length (works m)" "d < length (works m)" using gd(1,2) by simp_all
    from maps_sorted_moved[OF assms(2) this] steal(2) show ?thesis by simp
  next
    case dispatch
    with assms(2) show ?thesis by (auto simp: maps_sorted_def dispatched_work_ids)
  qed
qed

lemma step_apart:
  assumes "step env e m = Ok u m'" "maps_apart (works m)"
  shows "maps_apart (works m')"
proof -
  from step_works[OF assms(1)] consider
      (same) "works m' = works m"
    | (reap) i k where "i < length (works m)"
        "works m' = (works m)[i := map_modify k (\<lambda>t. t\<lparr>status := FINISHED\<rparr>) (works m ! i)]"
    | (steal) idle d s src task where "steal_guards idle m d s src task"
        "works m' = moved s d task (works m)"
    | (dispatch) "works m' = map dispatched_work (workers m)"
    by blast
  then show ?thesis
  proof cases
    case same
    with assms(2) show ?thesis by simp
  next
    case reap
    have "id_task ` set (map_modify k (\<lambda>t. t\<lparr>status := FINISHED\<rparr>) (works m ! i)) \<subseteq> id_task ` set (works m ! i)"
      by (simp add: set_map_modify_ids)
    from maps_apart_shrink[OF assms(2) reap(1) this] reap(2) show ?thesis by simp
  next
    case steal
    note gd = steal_guardsD[OF steal(1)]
    have "s < length (works m)" "d < length (works m)" "task \<in> set (works m ! s)"
      using gd(1,2,5) by simp_all
    from maps_apart_moved[OF assms(2) this] steal(2) show ?thesis by simp
  next
    case dispatch
    with assms(2) show ?thesis by (auto simp: maps_apart_def dispatched_work_id_set)
  qed
qed

lemma step_one_active:
  assumes "step env e m = Ok u m'" "one_active (works m)"
  shows "one_active (works m')"
proof -
  from step_works[OF assms(1)] consider
      (same) "works m' = works m"
    | (reap) i k t where "i < length (works m)" "map_find k (works m ! i) = Some t"
        "works m' = (works m)[i := map_modify k (\<lambda>t. t\<lparr>status := FINISHED\<rparr>) (works m ! i)]"
    | (steal) idle d s src task where "steal_guards idle m d s src task"
        "works m' = moved s d task (works m)"
    | (dispatch) "works m' = map dispatched_work (workers m)"
    by blast
  then show ?thesis
  proof cases
    case same
    with assms(2) show ?thesis by simp
  next
    case reap
    have c: "cnt ACTIVE (map_modify k (\<lambda>t. t\<lparr>status := FINISHED\<rparr>) (works m ! i)) \<le> 1"
      using cnt_modify[OF reap(2), of ACTIVE FINISHED] one_active_nth[OF assms(2) reap(1)]
      by (auto split: if_splits)
    from one_active_update[OF assms(2) c, of i] reap(3) show ?thesis by simp
  next
    case steal
    note gd = steal_guardsD[OF steal(1)]
    have "s < length (works m)" "d < length (works m)" "status task \<noteq> ACTIVE"
      using gd(1,2) in_pending[OF gd(4)] by simp_all
    from one_active_moved[OF assms(2) this] steal(2) show ?thesis by simp
  next
    case dispatch
    have "one_active (map dispatched_work (workers m))"
      unfolding one_active_def
    proof
      fix ts assume "ts \<in> set (map dispatched_work (workers m))"
      then obtain w where w: "w \<in> set (workers m)" "ts = dispatched_work w" by auto
      from assms(2) w(1) have "cnt ACTIVE (work w) \<le> 1" unfolding one_active_def by simp
      from dispatched_work_active[OF this] w(2) show "cnt ACTIVE ts \<le> 1" by simp
    qed
    with dispatch show ?thesis by simp
  qed
qed

lemma states_preserve:
  assumes "P m" and "\<And>e m u m'. step env e m = Ok u m' \<Longrightarrow> P m \<Longrightarrow> P m'"
  shows "\<forall>s\<in>set (states env evs m). P s"
  using assms(1)
proof (induction evs arbitrary: m)
  case Nil
  then show ?case by simp
next
  case (Cons e evs)
  show ?case
  proof (cases "step env e m")
    case (Ok u m')
    from assms(2)[OF Ok Cons.prems] have "P m'" .
    from Cons.IH[OF this] Ok Cons.prems show ?thesis by simp
  qed (use Cons.prems in simp_all)
qed

lemma dispatched_work_counts:
  assumes "sorted_wrt taskid_less (map id_task (work w))" "0 < num_pending w" "num_active w = 0"
  shows "cnt ACTIVE (dispatched_work w) = 1 \<and>
     Suc (cnt PENDING (dispatched_work w)) = cnt PENDING (work w) \<and>
     cnt FINISHED (dispatched_work w) = cnt FINISHED (work w)"
proof -
  from dispatched_work_find[OF assms(2,3)] obtain best :: TaskState and t0 where
    b: "best \<in> set (work w)" "status best = PENDING"
    and f: "map_find (id_task best) (work w) = Some t0"
    and d: "dispatched_work w = map_modify (id_task best) (\<lambda>t. t\<lparr>status := ACTIVE\<rparr>) (work w)"
    by auto
  from map_find_distinct[OF sorted_ids_distinct[OF assms(1)] b(1)] f have t0: "t0 = best" by simp
  from assms(3) have z: "cnt ACTIVE (work w) = 0" by (simp add: num_active_def num_with_cnt)
  from cnt_modify[OF f, of ACTIVE ACTIVE] cnt_modify[OF f, of PENDING ACTIVE]
    cnt_modify[OF f, of FINISHED ACTIVE] z t0 b(2) d
  show ?thesis by simp
qed

lemma step_keeps_active:
  assumes st: "step env e m = Ok u m'" and so: "maps_sorted (works m)" and ap: "maps_apart (works m)"
    and k: "k < length (workers m)" and t: "t \<in> set (work (workers m ! k))" and a: "status t = ACTIVE"
  shows "map_find (id_task t) (work (workers m' ! k)) = Some t \<or>
     (e = Reap \<and> map_find (id_task t) (work (workers m' ! k)) = Some (t\<lparr>status := FINISHED\<rparr>))"
proof -
  define W where "W = works m"
  define W' where "W' = works m'"
  have len: "length W' = length W" using step_length[OF st] by (simp add: W_def W'_def)
  have kw: "k < length W" using k by (simp add: W_def)
  have wk': "work (workers m' ! k) = W' ! k" using kw len by (simp add: W'_def)
  have wk: "work (workers m ! k) = W ! k" using k by (simp add: W_def)
  have tk: "t \<in> set (W ! k)" using t wk by simp
  have dist: "distinct (map id_task (W ! k))"
    using sorted_ids_distinct[OF maps_sorted_nth[OF so, of k]] kw by (simp add: W_def)
  have ft: "map_find (id_task t) (W ! k) = Some t"
    by (rule map_find_distinct[OF dist tk])
  from step_works[OF st] consider
      (same) "W' = W"
    | (reap) i k0 t0 where "e = Reap" "i < length W" "map_find k0 (W ! i) = Some t0"
        "W' = W[i := map_modify k0 (\<lambda>t. t\<lparr>status := FINISHED\<rparr>) (W ! i)]"
    | (steal) idle d s src task where "steal_guards idle m d s src task"
        "W' = moved s d task W"
    | (dispatch) "W' = map dispatched_work (workers m)"
    unfolding W_def W'_def by blast
  then have "map_find (id_task t) (W' ! k) = Some t \<or>
     (e = Reap \<and> map_find (id_task t) (W' ! k) = Some (t\<lparr>status := FINISHED\<rparr>))"
  proof cases
    case same
    with ft show ?thesis by simp
  next
    case reap
    have mm: "map_find j (map_modify k0 (\<lambda>t. t\<lparr>status := FINISHED\<rparr>) ts) =
        (if j = k0 then map_option (\<lambda>t. t\<lparr>status := FINISHED\<rparr>) (map_find k0 ts) else map_find j ts)"
      for j ts
      by (rule map_find_map_modify) simp
    show ?thesis
    proof (cases "i = k")
      case True
      then have e: "W' ! k = map_modify k0 (\<lambda>t. t\<lparr>status := FINISHED\<rparr>) (W ! k)"
        using reap(4) kw by simp
      show ?thesis
      proof (cases "k0 = id_task t")
        case k0: True
        with reap(3) ft \<open>i = k\<close> have "t0 = t" by simp
        with k0 ft reap(1) show ?thesis unfolding e mm by simp
      next
        case False
        with ft show ?thesis unfolding e mm by simp
      qed
    next
      case False
      then have "W' ! k = W ! k" using reap(4) by simp
      with ft show ?thesis by simp
    qed
  next
    case steal
    note gd = steal_guardsD[OF steal(1)]
    have sl: "s < length W" and dl: "d < length W"
      and ts: "task \<in> set (W ! s)" and tp: "status task = PENDING"
      using gd(1,2,5) in_pending[OF gd(4)] by (simp_all add: W_def)
    have ne: "id_task t \<noteq> id_task task"
    proof
      assume eq: "id_task t = id_task task"
      show False
      proof (cases "k = s")
        case True
        have "map_find (id_task task) (W ! s) = Some task"
          using map_find_distinct[OF _ ts] dist True by simp
        with ft eq True have "t = task" by simp
        with a tp show False by simp
      next
        case False
        have "id_task ` set (W ! k) \<inter> id_task ` set (W ! s) = {}"
          using ap kw sl False by (simp add: maps_apart_def W_def)
        with tk ts eq show False by blast
      qed
    qed
    define W1 where "W1 = W[s := map_erase (id_task task) (W ! s)]"
    have l1: "length W1 = length W" by (simp add: W1_def)
    have "W1 ! k = (if k = s then map_erase (id_task task) (W ! s) else W ! k)"
      using kw by (simp add: W1_def nth_list_update)
    then have f1: "map_find (id_task t) (W1 ! k) = Some t"
      using ft ne by (cases "k = s") (simp_all add: map_find_map_erase)
    have "W' = W1[d := map_put (task\<lparr>stolen := True\<rparr>) (W1 ! d)]"
      using steal(2) by (simp add: moved_def W1_def)
    then have "W' ! k = (if k = d then map_put (task\<lparr>stolen := True\<rparr>) (W1 ! d) else W1 ! k)"
      using kw l1 by (simp add: nth_list_update)
    moreover have "map_find (id_task t) (map_put (task\<lparr>stolen := True\<rparr>) ts) = map_find (id_task t) ts" for ts
      by (rule map_find_map_put_other) (simp add: ne)
    ultimately have "map_find (id_task t) (W' ! k) = Some t" using f1 by (cases "k = d") simp_all
    then show ?thesis by simp
  next
    case dispatch
    have "0 < cnt ACTIVE (work (workers m ! k))"
      using t a by (auto simp: cnt_def filter_empty_conv)
    then have "num_active (workers m ! k) \<noteq> 0"
      by (simp add: num_active_def num_with_cnt)
    then have "dispatched_work (workers m ! k) = work (workers m ! k)"
      by (simp add: dispatched_work_def)
    with dispatch k ft wk show ?thesis by simp
  qed
  with wk' show ?thesis by simp
qed

subsection \<open>The stolen flag along the master loop\<close>

lemma stolen_ids_nth:
  "stolen_ids m = {i. \<exists>j<length (works m). i \<in> stolen_in (works m ! j)}"
proof -
  have "stolen_ids m = (\<Union>w\<in>set (workers m). stolen_in (work w))"
    by (auto simp: stolen_ids_def stolen_in_def)
  also have "\<dots> = {i. \<exists>j<length (workers m). i \<in> stolen_in (work (workers m ! j))}"
  proof (intro equalityI subsetI)
    fix i assume "i \<in> (\<Union>w\<in>set (workers m). stolen_in (work w))"
    then show "i \<in> {i. \<exists>j<length (workers m). i \<in> stolen_in (work (workers m ! j))}"
      by (auto simp: in_set_conv_nth)
  next
    fix i assume "i \<in> {i. \<exists>j<length (workers m). i \<in> stolen_in (work (workers m ! j))}"
    then obtain j where "j < length (workers m)" "i \<in> stolen_in (work (workers m ! j))" by blast
    with nth_mem[of j "workers m"] show "i \<in> (\<Union>w\<in>set (workers m). stolen_in (work w))"
      by blast
  qed
  finally show ?thesis by auto
qed

lemma stolen_in_modify:
  "(\<And>t. id_task (f t) = id_task t) \<Longrightarrow> (\<And>t. stolen (f t) = stolen t) \<Longrightarrow>
   stolen_in (map_modify k f ts) = stolen_in ts"
proof -
  assume a: "\<And>t. id_task (f t) = id_task t" "\<And>t. stolen (f t) = stolen t"
  define g :: "TaskState \<Rightarrow> Taskid \<times> bool" where "g = (\<lambda>t. (id_task t, stolen t))"
  have m: "map g (map_modify k f ts) = map g ts"
    by (induction ts) (simp_all add: g_def a)
  have e: "stolen_in xs = fst ` {p \<in> set (map g xs). snd p}" for xs
    by (force simp: stolen_in_def g_def image_iff)
  show ?thesis unfolding e m ..
qed

lemma stolen_in_dispatched: "stolen_in (dispatched_work w) = stolen_in (work w)"
  by (auto simp: dispatched_work_def stolen_in_modify split: option.splits)

lemma stolen_in_erase: "stolen_in (map_erase k ts) = stolen_in ts - {k}"
  by (auto simp: stolen_in_def map_erase_def)

lemma stolen_in_put:
  assumes "stolen s"
  shows "insert (id_task s) (stolen_in ts) \<subseteq> stolen_in (map_put s ts)"
proof
  fix i assume i: "i \<in> insert (id_task s) (stolen_in ts)"
  show "i \<in> stolen_in (map_put s ts)"
  proof (cases "i = id_task s")
    case True
    with assms in_map_put[of s ts] show ?thesis by (auto simp: stolen_in_def)
  next
    case False
    with i obtain t where t: "t \<in> set ts" "stolen t" "id_task t = i"
      by (auto simp: stolen_in_def)
    with False have "t \<in> set (map_put s ts)" by (auto intro: keep_map_put)
    with t show ?thesis by (auto simp: stolen_in_def)
  qed
qed

lemma stolen_in_moved:
  assumes "s < length W" "d < length W" "j < length W" "i \<in> stolen_in (W ! j)"
  shows "\<exists>j'<length (moved s d task W). i \<in> stolen_in (moved s d task W ! j')"
proof -
  define W1 where "W1 = W[s := map_erase (id_task task) (W ! s)]"
  define W2 where "W2 = W1[d := map_put (task\<lparr>stolen := True\<rparr>) (W1 ! d)]"
  have l: "length W1 = length W" "length W2 = length W" by (simp_all add: W1_def W2_def)
  have m: "moved s d task W = W2" by (simp add: moved_def W1_def W2_def)
  have d2: "W2 ! d = map_put (task\<lparr>stolen := True\<rparr>) (W1 ! d)"
    using assms(2) l by (simp add: W2_def)
  have put: "insert (id_task task) (stolen_in (W1 ! d)) \<subseteq> stolen_in (W2 ! d)"
    using stolen_in_put[of "task\<lparr>stolen := True\<rparr>" "W1 ! d"] d2 by simp
  show ?thesis
  proof (cases "i = id_task task")
    case True
    with put have "i \<in> stolen_in (W2 ! d)" by blast
    with assms(2) l m show ?thesis by auto
  next
    case False
    have "W1 ! j = (if j = s then map_erase (id_task task) (W ! s) else W ! j)"
      using assms(3) by (simp add: W1_def nth_list_update)
    with assms(4) False have 1: "i \<in> stolen_in (W1 ! j)"
      by (cases "j = s") (simp_all add: stolen_in_erase)
    have "i \<in> stolen_in (W2 ! j)"
    proof (cases "j = d")
      case True
      with 1 put show ?thesis by blast
    next
      case False
      then have "W2 ! j = W1 ! j" by (simp add: W2_def)
      with 1 show ?thesis by simp
    qed
    with assms(3) l m show ?thesis by auto
  qed
qed

lemma stolen_in_moved_task:
  assumes "d < length W"
  shows "id_task task \<in> stolen_in (moved s d task W ! d)"
proof -
  define W1 where "W1 = W[s := map_erase (id_task task) (W ! s)]"
  have "moved s d task W ! d = map_put (task\<lparr>stolen := True\<rparr>) (W1 ! d)"
    using assms by (simp add: moved_def W1_def)
  with stolen_in_put[of "task\<lparr>stolen := True\<rparr>" "W1 ! d"] show ?thesis by auto
qed

lemma step_stolen_mono:
  assumes "step env e m = Ok u m'"
  shows "stolen_ids m \<subseteq> stolen_ids m'"
proof
  fix i assume "i \<in> stolen_ids m"
  then obtain j where j: "j < length (works m)" "i \<in> stolen_in (works m ! j)"
    by (auto simp: stolen_ids_nth)
  from step_works[OF assms] consider
      (same) "works m' = works m"
    | (reap) i0 k where "i0 < length (works m)"
        "works m' = (works m)[i0 := map_modify k (\<lambda>t. t\<lparr>status := FINISHED\<rparr>) (works m ! i0)]"
    | (steal) idle d s src task where "steal_guards idle m d s src task"
        "works m' = moved s d task (works m)"
    | (dispatch) "works m' = map dispatched_work (workers m)"
    by blast
  then have "\<exists>j'<length (works m'). i \<in> stolen_in (works m' ! j')"
  proof cases
    case same
    with j show ?thesis by auto
  next
    case reap
    have "stolen_in (map_modify k (\<lambda>t. t\<lparr>status := FINISHED\<rparr>) ts) = stolen_in ts" for ts
      by (rule stolen_in_modify) simp_all
    then have "stolen_in (works m' ! j) = stolen_in (works m ! j)"
      using j(1) unfolding reap(2) by (cases "j = i0") simp_all
    moreover have "length (works m') = length (works m)" unfolding reap(2) by simp
    ultimately show ?thesis using j by metis
  next
    case steal
    note gd = steal_guardsD[OF steal(1)]
    have "s < length (works m)" "d < length (works m)" using gd(1,2) by simp_all
    from stolen_in_moved[OF this j] show ?thesis unfolding steal(2) .
  next
    case dispatch
    have "works m' ! j = dispatched_work (workers m ! j)" using j(1) unfolding dispatch by simp
    then have "stolen_in (works m' ! j) = stolen_in (works m ! j)"
      using j(1) by (simp add: stolen_in_dispatched)
    moreover have "length (works m') = length (works m)" unfolding dispatch by simp
    ultimately show ?thesis using j by metis
  qed
  then show "i \<in> stolen_ids m'" by (simp add: stolen_ids_nth)
qed

lemma steal_guards_candidate:
  "steal_guards idle m d s src task \<Longrightarrow> steal_candidate m = Some task \<and> \<not> stolen task"
  by (simp add: steal_guards_def steal_candidate_def)

lemma steal_guards_fresh:
  assumes g: "steal_guards idle m d s src task"
    and so: "maps_sorted (works m)" and ap: "maps_apart (works m)"
  shows "id_task task \<notin> stolen_ids m"
proof
  assume "id_task task \<in> stolen_ids m"
  then obtain j t where j: "j < length (works m)" and t: "t \<in> set (works m ! j)" "stolen t"
    "id_task t = id_task task"
    by (auto simp: stolen_ids_nth stolen_in_def)
  note gd = steal_guardsD[OF g]
  have sl: "s < length (works m)" and ts: "task \<in> set (works m ! s)"
    using gd(2,5) by simp_all
  from g have ns: "\<not> stolen task" by (simp add: steal_guards_def)
  show False
  proof (cases "j = s")
    case True
    have dist: "distinct (map id_task (works m ! s))"
      by (rule sorted_ids_distinct[OF maps_sorted_nth[OF so sl]])
    from map_find_distinct[OF dist ts] map_find_distinct[OF dist, of t] t(1,3) True
    have "t = task" by simp
    with t(2) ns show False by simp
  next
    case False
    with ap j sl have "id_task ` set (works m ! j) \<inter> id_task ` set (works m ! s) = {}"
      by (simp add: maps_apart_def)
    with t(1,3) ts show False by blast
  qed
qed

lemma steal_guards_marks:
  assumes "steal_guards idle m d s src task" "works m' = moved s d task (works m)"
  shows "id_task task \<in> stolen_ids m'"
proof -
  note gd = steal_guardsD[OF assms(1)]
  have dl: "d < length (works m)" using gd(1) by simp
  have "length (works m') = length (works m)" unfolding assms(2) by (simp add: moved_def)
  with stolen_in_moved_task[OF dl, of task s] dl assms(2) show ?thesis
    unfolding stolen_ids_nth by auto
qed

lemma migrated_id_cases:
  assumes "step env e m = Ok u m'"
  shows "migrated_id e m = [] \<or>
     (\<exists>idle avg d s src task. e = Steal idle avg \<and>
        steal_work (current_run m) idle avg m = Ok True m' \<and>
        steal_guards idle m d s src task \<and>
        works m' = moved s d task (works m) \<and> migrated_id e m = [id_task task])"
proof (cases e)
  case Reap
  then show ?thesis by (simp add: migrated_id_def)
next
  case Dispatch
  then show ?thesis by (simp add: migrated_id_def)
next
  case (Steal idle avg)
  with assms obtain b where b: "steal_work (current_run m) idle avg m = Ok b m'"
    by (cases "steal_work (current_run m) idle avg m") (auto simp: step_def rbind_def)
  show ?thesis
  proof (cases b)
    case False
    with b Steal show ?thesis by (simp add: migrated_id_def)
  next
    case True
    with steal_work_works[OF b] obtain d s src task where
      g: "steal_guards idle m d s src task" "works m' = moved s d task (works m)" by blast
    from steal_guards_candidate[OF g(1)] b True Steal
    have "migrated_id e m = [id_task task]" by (simp add: migrated_id_def)
    moreover from b True have "steal_work (current_run m) idle avg m = Ok True m'" by simp
    ultimately show ?thesis using g Steal by blast
  qed
qed

lemma migrations_distinct:
  assumes "maps_sorted (works m)" "maps_apart (works m)"
  shows "distinct (migrations env evs m) \<and> set (migrations env evs m) \<inter> stolen_ids m = {}"
  using assms
proof (induction evs arbitrary: m)
  case Nil
  then show ?case by simp
next
  case (Cons e es)
  show ?case
  proof (cases "step env e m")
    case (Ok u m')
    have so: "maps_sorted (works m')" by (rule step_sorted[OF Ok Cons.prems(1)])
    have ap: "maps_apart (works m')" by (rule step_apart[OF Ok Cons.prems(2)])
    from Cons.IH[OF so ap] have ih: "distinct (migrations env es m')"
      "set (migrations env es m') \<inter> stolen_ids m' = {}" by simp_all
    have mono: "stolen_ids m \<subseteq> stolen_ids m'" by (rule step_stolen_mono[OF Ok])
    have eq: "migrations env (e # es) m = migrated_id e m @ migrations env es m'"
      using Ok by simp
    from migrated_id_cases[OF Ok] show ?thesis
    proof
      assume "migrated_id e m = []"
      with eq ih mono show ?thesis by auto
    next
      assume "\<exists>idle avg d s src task. e = Steal idle avg \<and>
        steal_work (current_run m) idle avg m = Ok True m' \<and>
        steal_guards idle m d s src task \<and>
        works m' = moved s d task (works m) \<and> migrated_id e m = [id_task task]"
      then obtain idle d s src task where g: "steal_guards idle m d s src task"
        "works m' = moved s d task (works m)" "migrated_id e m = [id_task task]" by blast
      from steal_guards_fresh[OF g(1) Cons.prems] have f: "id_task task \<notin> stolen_ids m" .
      from steal_guards_marks[OF g(1,2)] have k: "id_task task \<in> stolen_ids m'" .
      from eq g(3) ih mono f k show ?thesis by auto
    qed
  qed simp_all
qed


subsection \<open>The record of the steal attempts\<close>

lemma state_of_rbind:
  "state_of (rbind r f) = (case r of Ok a s \<Rightarrow> state_of (f a s) | _ \<Rightarrow> state_of r)"
  by (cases r) (simp_all add: rbind_def)

lemma rbind_assoc: "rbind (rbind r f) g = rbind r (\<lambda>a s. rbind (f a s) g)"
  by (cases r) (simp_all add: rbind_def)

lemma rbind_extends:
  assumes "\<And>a s. \<exists>ys. steal_attempts (state_of (f a s)) = steal_attempts s @ ys"
  shows "\<exists>ys. steal_attempts (state_of (rbind r f)) = steal_attempts (state_of r) @ ys"
  using assms by (cases r) (simp_all add: rbind_def)

lemma migrate_attempts: "steal_attempts (state_of (migrate s d task m)) = steal_attempts m"
  by (simp add: migrate_def Let_def split: option.splits)

lemma steal_work_attempts:
  "steal_attempts (state_of (steal_work r idle avg m)) = steal_attempts m"
  by (simp add: steal_work_def migrate_attempts split: option.splits prod.splits)

lemma steal_condition_state:
  "steal_attempts (snd (steal_condition env avg i m)) = steal_attempts m \<and>
   workers (snd (steal_condition env avg i m)) = workers m"
  by (simp add: steal_condition_def idle_time_def Now_def split: prod.splits)

lemma steal_turn_attempts:
  "steal_attempts (state_of (steal_turn env avg i nu m)) =
   steal_attempts m @ (if fst (steal_condition env avg i m) then [id_worker (workers m ! i)] else [])"
proof (cases "steal_condition env avg i m")
  case (Pair c m1)
  from steal_condition_state[of env avg i m] Pair
  have s: "steal_attempts m1 = steal_attempts m" "workers m1 = workers m" by simp_all
  show ?thesis
  proof (cases c)
    case False
    with Pair s show ?thesis
      by (simp add: steal_turn_def rbind_def send_table_assignments_def)
  next
    case True
    define m1' where "m1' = m1\<lparr>steal_attempts := steal_attempts m1 @ [id_worker (workers m1 ! i)]\<rparr>"
    define r where "r = steal_work (current_run m1) (id_worker (workers m1 ! i)) avg m1'"
    have a: "steal_attempts (state_of r) = steal_attempts m @ [id_worker (workers m ! i)]"
      unfolding r_def steal_work_attempts by (simp add: m1'_def s)
    have "steal_turn env avg i nu m =
        rbind (rbind r (\<lambda>stole m2. Ok (stole \<or> nu) m2))
          (\<lambda>nu m3. Ok nu (if nu then send_table_assignments m3 else m3))"
      using Pair True by (simp add: steal_turn_def r_def m1'_def)
    then have "steal_attempts (state_of (steal_turn env avg i nu m)) = steal_attempts (state_of r)"
      by (cases r) (simp_all add: rbind_def send_table_assignments_def)
    with a Pair True show ?thesis by simp
  qed
qed

lemma steal_turns_attempts:
  "\<exists>ys. steal_attempts (state_of (steal_turns env avg is nu m)) = steal_attempts m @ ys"
proof (induction "is" arbitrary: nu m)
  case Nil
  then show ?case by simp
next
  case (Cons i rest)
  show ?case
  proof (cases "steal_turn env avg i nu m")
    case (Ok nu' m')
    from Cons.IH[of nu' m'] obtain ys where
      "steal_attempts (state_of (steal_turns env avg rest nu' m')) = steal_attempts m' @ ys" by blast
    moreover from steal_turn_attempts[of env avg i nu m] Ok
    obtain zs where "steal_attempts m' = steal_attempts m @ zs" by simp
    ultimately show ?thesis using Ok by (simp add: rbind_def)
  next
    case (Aborted e m')
    with steal_turn_attempts[of env avg i nu m] show ?thesis by (simp add: rbind_def)
  next
    case (Undefined m')
    with steal_turn_attempts[of env avg i nu m] show ?thesis by (simp add: rbind_def)
  next
    case (OutOfFuel m')
    with steal_turn_attempts[of env avg i nu m] show ?thesis by (simp add: rbind_def)
  qed
qed

lemma steal_turns_append:
  "steal_turns env avg (xs @ ys) nu m =
   rbind (steal_turns env avg xs nu m) (\<lambda>nu' m'. steal_turns env avg ys nu' m')"
proof (induction xs arbitrary: nu m)
  case Nil
  then show ?case by (simp add: rbind_def)
next
  case (Cons x xs)
  show ?case
  proof (cases "steal_turn env avg x nu m")
    case (Ok nu' m')
    with Cons.IH[of nu' m'] show ?thesis by (simp add: rbind_def)
  qed (simp_all add: rbind_def)
qed

lemma dispatch_loop_attempts:
  "steal_attempts (state_of (dispatch_loop env r is n req m)) = steal_attempts m"
proof (induction "is" arbitrary: n req m)
  case Nil
  then show ?case by simp
next
  case (Cons i rest)
  then show ?case by (simp add: Now_def split: option.splits prod.splits)
qed

lemma steal_turns_reached:
  assumes "k < n" "steal_turns env avg [0..<k] False m = Ok nu mk"
  shows "\<exists>ys. steal_attempts (state_of (steal_turns env avg [0..<n] False m)) =
     steal_attempts (state_of (steal_turn env avg k nu mk)) @ ys"
proof -
  have "[0..<n] = [0..<k] @ k # [Suc k..<n]"
    using assms(1) by (metis le_add1 less_imp_add_positive upt_add_eq_append upt_conv_Cons
        plus_nat.add_0)
  then have "steal_turns env avg [0..<n] False m =
      rbind (steal_turn env avg k nu mk) (\<lambda>nu' m'. steal_turns env avg [Suc k..<n] nu' m')"
    using assms(2) by (simp add: steal_turns_append rbind_def)
  moreover have "\<exists>ys. steal_attempts (state_of
      (rbind (steal_turn env avg k nu mk) (\<lambda>nu' m'. steal_turns env avg [Suc k..<n] nu' m'))) =
      steal_attempts (state_of (steal_turn env avg k nu mk)) @ ys"
    by (rule rbind_extends) (rule steal_turns_attempts)
  ultimately show ?thesis by simp
qed

text \<open>The double that the literal \<^verbatim>\<open>0.1\<close> denotes.\<close>

lemma double_tenth: "round_double (1 / 10) = Fin (3602879701896397 / 36028797018963968)"
  by code_simp

lemma work_check_gate_steady:
  assumes "a \<le> b"
  shows "\<not> work_check_gate (Fin a) (Fin b)"
proof -
  from assms have "a + - b \<le> 0" by simp
  from round_double_nonpos[OF this] show ?thesis
    by (auto simp: work_check_gate_def dsub_def dgreater_def double_tenth)
qed

lemma reap_one_task_state:
  "steal_attempts (state_of (reap_one_task env m)) = steal_attempts m \<and>
   n_now m \<le> n_now (state_of (reap_one_task env m))"
  by (auto simp: reap_one_task_def Let_def Now_def split: option.splits sum.splits prod.splits)

lemma reap_iteration_attempts:
  assumes mono: "\<forall>i j. i \<le> j \<longrightarrow> clock env i \<le> clock env j"
  shows "steal_attempts (state_of (reap_iteration env m)) = steal_attempts m"
proof -
  define m1 where "m1 = m\<lparr>n_now := Suc (n_now m)\<rparr>"
  have N: "Now env m = (Fin (clock env (n_now m)), m1)" by (simp add: Now_def m1_def)
  have ri: "reap_iteration env m =
      rbind (reap_one_task env m1)
        (\<lambda>w_id m2.
           if w_id \<ge> 0 then
             rbind (work_check env (Fin (clock env (n_now m))) (m2\<lparr>finished := Suc (finished m2)\<rparr>))
               (\<lambda>_ m3.
                  if dispatched m3 < length (rd_shards (current_run m3)) then
                    rbind (dispatch_work env (current_run m3) m3)
                      (\<lambda>n m4. Ok () (m4\<lparr>dispatched := dispatched m4 + n\<rparr>))
                  else Ok () m3)
           else Ok () m2)"
    by (simp add: reap_iteration_def N)
  from reap_one_task_state[of env m1]
  have st: "steal_attempts (state_of (reap_one_task env m1)) = steal_attempts m"
    "n_now m \<le> n_now (state_of (reap_one_task env m1))"
    by (simp_all add: m1_def)
  show ?thesis
  proof (cases "reap_one_task env m1")
    case (Ok w m2)
    with st have a2: "steal_attempts m2 = steal_attempts m" "n_now m \<le> n_now m2" by simp_all
    show ?thesis
    proof (cases "0 \<le> w")
      case False
      with Ok a2 show ?thesis by (simp add: ri rbind_def)
    next
      case True
      define mf where "mf = m2\<lparr>finished := Suc (finished m2)\<rparr>"
      define m3 where "m3 = mf\<lparr>n_now := Suc (n_now mf)\<rparr>"
      have le: "clock env (n_now m) \<le> clock env (n_now mf)"
        using mono a2(2) by (simp add: mf_def)
      have wc: "work_check env (Fin (clock env (n_now m))) mf = Ok () m3"
        using work_check_gate_steady[OF le] by (simp add: work_check_def Now_def m3_def)
      have a3: "steal_attempts m3 = steal_attempts m" using a2(1) by (simp add: m3_def mf_def)
      have "steal_attempts (state_of (rbind (dispatch_work env (current_run m3) m3)
            (\<lambda>n m4. Ok () (m4\<lparr>dispatched := dispatched m4 + n\<rparr>)))) =
          steal_attempts (state_of (dispatch_work env (current_run m3) m3))"
        by (cases "dispatch_work env (current_run m3) m3") (simp_all add: rbind_def)
      then have d: "steal_attempts (state_of (rbind (dispatch_work env (current_run m3) m3)
            (\<lambda>n m4. Ok () (m4\<lparr>dispatched := dispatched m4 + n\<rparr>)))) = steal_attempts m3"
        by (simp add: dispatch_work_def dispatch_loop_attempts)
      have "reap_iteration env m =
          (if dispatched m3 < length (rd_shards (current_run m3)) then
             rbind (dispatch_work env (current_run m3) m3)
               (\<lambda>n m4. Ok () (m4\<lparr>dispatched := dispatched m4 + n\<rparr>))
           else Ok () m3)"
        using Ok True wc by (simp add: ri rbind_def mf_def)
      with d a3 show ?thesis by simp
    qed
  next
    case (Aborted e m2)
    with st show ?thesis by (simp add: ri rbind_def)
  next
    case (Undefined m2)
    with st show ?thesis by (simp add: ri rbind_def)
  next
    case (OutOfFuel m2)
    with st show ?thesis by (simp add: ri rbind_def)
  qed
qed


subsection \<open>The estimates and the steals of the examples\<close>

lemma ex_move_cost_half: "move_cost (new_TaskState (Taskid 0 0) 1) (Fin (1 / 2)) (Fin 1) = Fin 1"
  by code_simp

lemma ex_eta_half:
  "eta [new_TaskState (Taskid 0 0) 1, new_TaskState (Taskid 0 1) 1] (Fin (1 / 2)) (Fin 1) = Fin 2"
  by code_simp

lemma ex_move_cost_one: "move_cost (new_TaskState (Taskid 0 0) 1) (Fin 1) (Fin 1) = Fin 2"
  by code_simp

lemma ex_eta_one:
  "eta [new_TaskState (Taskid 0 0) 1, new_TaskState (Taskid 0 1) 1] (Fin 1) (Fin 1) = Fin 2"
  by code_simp

lemma ex_move_cost_second: "move_cost (new_TaskState (Taskid 0 1) 1) (Fin (1 / 2)) (Fin 1) = Fin 1"
  by code_simp

lemma ex_eta_second: "eta [new_TaskState (Taskid 0 1) 1] (Fin (1 / 2)) (Fin 1) = Fin 1"
  by code_simp

lemma ex_pending:
  "pending (workers ex_master ! 0) = [new_TaskState (Taskid 0 0) 1, new_TaskState (Taskid 0 1) 1]"
  by code_simp

lemma ex_average_size: "average_size 2 = Fin 1"
  by (rule average_size_pos) simp_all

lemma ex_steal_test:
  assumes "steal_guards idle m d s src (new_TaskState (Taskid 0 0) 1)"
    and "pending src = [new_TaskState (Taskid 0 0) 1, new_TaskState (Taskid 0 1) 1]"
  shows "steal_work ex_run idle (Fin (1 / 2)) m = migrate s d (new_TaskState (Taskid 0 0) 1) m"
    and "steal_work ex_run idle (Fin 1) m = Ok False m"
proof -
  have rd: "rd_table ex_run = Some \<lparr>id_table = 0, numShards = 2\<rparr>" by (simp add: ex_run_def)
  show "steal_work ex_run idle (Fin (1 / 2)) m = migrate s d (new_TaskState (Taskid 0 0) 1) m"
    using steal_work_guarded[OF assms(1) rd, of "Fin (1 / 2)"]
    by (simp add: ex_average_size assms(2) ex_eta_half ex_move_cost_half dle_def)
  show "steal_work ex_run idle (Fin 1) m = Ok False m"
    using steal_work_guarded[OF assms(1) rd, of "Fin 1"]
    by (simp add: ex_average_size assms(2) ex_eta_one ex_move_cost_one dle_def)
qed

lemma ex_steal_test_second:
  assumes "steal_guards idle m d s src (new_TaskState (Taskid 0 1) 1)"
    and "pending src = [new_TaskState (Taskid 0 1) 1]"
  shows "steal_work ex_run idle (Fin (1 / 2)) m = Ok False m"
proof -
  have rd: "rd_table ex_run = Some \<lparr>id_table = 0, numShards = 2\<rparr>" by (simp add: ex_run_def)
  show ?thesis
    using steal_work_guarded[OF assms(1) rd, of "Fin (1 / 2)"]
    by (simp add: ex_average_size assms(2) ex_eta_second ex_move_cost_second dle_def)
qed

lemma ex_guards:
  "steal_guards 1 ex_master 1 0 (workers ex_master ! 0) (new_TaskState (Taskid 0 0) 1)"
  by code_simp

lemma ex_guards_self:
  "steal_guards 0 ex_master 0 0 (workers ex_master ! 0) (new_TaskState (Taskid 0 0) 1)"
  by code_simp

lemma ex_migrate:
  "migrate 0 1 (new_TaskState (Taskid 0 0) 1) ex_master =
     Ok True (migrated 0 1 (new_TaskState (Taskid 0 0) 1) ex_master)"
proof -
  have "0 < length (workers ex_master)" "1 < length (workers ex_master)" "(0::nat) \<noteq> 1"
    "distinct (map fst (tables ex_master))"
    "shard_ids (tables ex_master) (shard (id_task (new_TaskState (Taskid 0 0) 1)))
       \<subseteq> shards (workers ex_master ! 0)"
    "new_TaskState (Taskid 0 0) 1 \<in> set (work (workers ex_master ! 0))"
    by code_simp+
  then show ?thesis by (rule migrate_Ok)
qed

lemma ex_steal_half:
  "steal_work ex_run 1 (Fin (1 / 2)) ex_master =
     Ok True (migrated 0 1 (new_TaskState (Taskid 0 0) 1) ex_master)"
  using ex_steal_test(1)[OF ex_guards ex_pending] ex_migrate by simp

lemma ex_steal_one: "steal_work ex_run 1 (Fin 1) ex_master = Ok False ex_master"
  by (rule ex_steal_test(2)[OF ex_guards ex_pending])

lemma ex_steal_self:
  "steal_work ex_run 0 (Fin (1 / 2)) ex_master =
     migrate 0 0 (new_TaskState (Taskid 0 0) 1) ex_master"
  by (rule ex_steal_test(1)[OF ex_guards_self ex_pending])

text \<open>The same steal at the start of the epoch of the example, and the steal after it.\<close>

lemma ex_epoch_steal:
  "steal_work ex_run 1 (Fin (1 / 2)) ex_epoch =
     Ok True (migrated 0 1 (new_TaskState (Taskid 0 0) 1) ex_epoch)"
proof -
  have g: "steal_guards 1 ex_epoch 1 0 (workers ex_epoch ! 0) (new_TaskState (Taskid 0 0) 1)"
    by code_simp
  have p: "pending (workers ex_epoch ! 0) =
      [new_TaskState (Taskid 0 0) 1, new_TaskState (Taskid 0 1) 1]"
    by code_simp
  have "0 < length (workers ex_epoch)" "1 < length (workers ex_epoch)" "(0::nat) \<noteq> 1"
    "distinct (map fst (tables ex_epoch))"
    "shard_ids (tables ex_epoch) (shard (id_task (new_TaskState (Taskid 0 0) 1)))
       \<subseteq> shards (workers ex_epoch ! 0)"
    "new_TaskState (Taskid 0 0) 1 \<in> set (work (workers ex_epoch ! 0))"
    by code_simp+
  then have "migrate 0 1 (new_TaskState (Taskid 0 0) 1) ex_epoch =
      Ok True (migrated 0 1 (new_TaskState (Taskid 0 0) 1) ex_epoch)"
    by (rule migrate_Ok)
  with ex_steal_test(1)[OF g p] show ?thesis by simp
qed

lemma ex_stolen_migrated: "ex_stolen = migrated 0 1 (new_TaskState (Taskid 0 0) 1) ex_epoch"
  by (simp add: ex_stolen_def ex_epoch_steal)

lemma ex_stolen_steal: "steal_work ex_run 1 (Fin (1 / 2)) ex_stolen = Ok False ex_stolen"
proof -
  have g: "steal_guards 1 (migrated 0 1 (new_TaskState (Taskid 0 0) 1) ex_epoch) 1 0
      (workers (migrated 0 1 (new_TaskState (Taskid 0 0) 1) ex_epoch) ! 0)
      (new_TaskState (Taskid 0 1) 1)"
    by code_simp
  have p: "pending (workers (migrated 0 1 (new_TaskState (Taskid 0 0) 1) ex_epoch) ! 0) =
      [new_TaskState (Taskid 0 1) 1]"
    by code_simp
  show ?thesis unfolding ex_stolen_migrated by (rule ex_steal_test_second[OF g p])
qed

text \<open>
  A steal that the rounding decides. With the average completion time \<^verbatim>\<open>1.2\<close> and
  pending tasks of the sizes 3, 1, 1 and 1, the move cost is the double below 7.2 and
  the sum of the four estimates is the double above it, where the exact values are
  equal.
\<close>

lemma ex_literal: "round_double (12 / 10) = Fin (5404319552844595 / 4503599627370496)"
  by code_simp

lemma ex_move_cost_sized:
  "move_cost (new_TaskState (Taskid 0 0) 3) (Fin (5404319552844595 / 4503599627370496)) (Fin 1) =
     Fin (2026619832316723 / 281474976710656)"
  by code_simp

lemma ex_eta_sized:
  "eta ex_sized (Fin (5404319552844595 / 4503599627370496)) (Fin 1) =
     Fin (8106479329266893 / 1125899906842624)"
  by code_simp

text \<open>
  The product \<^verbatim>\<open>2 * task->size\<close> wraps around for a task of the size \<open>2 ^ 30\<close>: the
  move cost is 1.
\<close>

lemma ex_move_cost_wraps:
  "sint (2 * size_task (new_TaskState (Taskid 0 0) (2 ^ 30))) = - (2 ^ 31) \<and>
   move_cost (new_TaskState (Taskid 0 0) (2 ^ 30)) (Fin 1) (Fin 1) = Fin 1 \<and>
   eta [new_TaskState (Taskid 0 0) (2 ^ 30)] (Fin 1) (Fin 1) = Fin (2 ^ 30)"
  by code_simp


section \<open>The claims\<close>

text \<open>
  Claim C1 (flush quiescence). The spec lets the barrier leave the flush phase after a
  round in which every worker reports \<^verbatim>\<open>updates_done == 0\<close>, and send
  \<^verbatim>\<open>WORKER_APPLY\<close> once. The code's loop is \<^verbatim>\<open>do { ... } while (1)\<close>: for every
  fuel, every environment (so also when every response reports zero updates) and every
  state, the flush rounds have not returned when the fuel ends and have sent nothing
  but \<^verbatim>\<open>WORKER_FLUSH\<close> broadcasts; \<open>barrier\<close> returns only when it is entered with
  no unfinished shard, and then sends nothing at all.
\<close>

theorem barrier_flush_rounds_never_return:
  "(\<exists>k m1. flush_rounds fuel env m = OutOfFuel m1 \<and> sent m1 = sent m @ replicate k WORKER_FLUSH) \<and>
   ((barrier fuel env m = Ok () m') =
      (\<not> finished m < length (rd_shards (current_run m)) \<and> m' = m))"
  using flush_rounds_OutOfFuel [of fuel env m] barrier_Ok_iff [of fuel env m m'] by blast

text \<open>
  Claim C2 (a steal attempt after every reap). The stealing block of \<^verbatim>\<open>barrier\<close>
  stands under \<^verbatim>\<open>if (lastWorkCheck - Now() > 0.1)\<close>, where \<^verbatim>\<open>lastWorkCheck\<close> is
  the reading of the clock at the top of the same iteration: the difference is the
  earlier reading minus the later one. With a clock that does not run backwards the
  difference is never above zero, the block is never entered, and no iteration of the
  reap loop calls \<^verbatim>\<open>steal_work\<close>, whatever the state of the workers and the
  statistics of the method.
\<close>

theorem no_steal_attempt_with_steady_clock:
  assumes "\<forall>i j. i \<le> j \<longrightarrow> clock env i \<le> clock env j"
  shows "steal_attempts (state_of (reap_iteration env m)) = steal_attempts m"
  using assms by (rule reap_iteration_attempts)

text \<open>
  In the example the clock advances by 1/128 of a second at every reading, the report
  of the first worker is reaped, the second worker has no unfinished task and has been
  idle for a hundred seconds, the method has twelve shard calls of more than nine
  seconds on average, stealing is enabled, and the iteration returns without a call of
  \<^verbatim>\<open>steal_work\<close>.
\<close>

theorem no_steal_attempt_with_steady_clock_witness:
  "returned (reap_one_task ex_env_slow (snd (Now ex_env_slow ex_timed))) = Some 0 \<and>
   FLAGS_work_stealing ex_after_reap \<and>
   shard_calls (method_stats ex_after_reap (stats_key (current_run ex_after_reap))) > 10 \<and>
   dgreater (ddiv (shard_time (method_stats ex_after_reap (stats_key (current_run ex_after_reap))))
              (double_of_int (shard_calls (method_stats ex_after_reap (stats_key (current_run ex_after_reap))))))
     (round_double (2 / 10)) \<and>
   dgreater (fst (idle_time ex_env_slow (workers ex_after_reap ! 1) ex_after_reap))
     (round_double (5 / 10)) \<and>
   fst (steal_condition ex_env_slow
          (ddiv (shard_time (method_stats ex_after_reap (stats_key (current_run ex_after_reap))))
             (double_of_int (shard_calls (method_stats ex_after_reap (stats_key (current_run ex_after_reap))))))
          1 ex_after_reap) \<and>
   returned (reap_iteration ex_env_slow ex_timed) = Some () \<and>
   steal_attempts ex_timed = [] \<and>
   steal_attempts (state_of (reap_iteration ex_env_slow ex_timed)) = []"
proof -
  have mono: "\<forall>i j. i \<le> j \<longrightarrow> clock ex_env_slow i \<le> clock ex_env_slow j"
    by (simp add: ex_env_slow_def divide_right_mono)
  have a: "returned (reap_one_task ex_env_slow (snd (Now ex_env_slow ex_timed))) = Some 0"
    by code_simp
  have k: "stats_key (current_run ex_after_reap) = ''K:run''"
    by code_simp
  have ms: "method_stats ex_after_reap ''K:run'' =
      \<lparr>calls = 1, shard_time = Fin (14211 / 128), shard_calls = 12, total_time = Fin 0\<rparr>"
    by code_simp
  have fl: "FLAGS_work_stealing ex_after_reap"
    by code_simp
  have b: "FLAGS_work_stealing ex_after_reap \<and>
      shard_calls (method_stats ex_after_reap (stats_key (current_run ex_after_reap))) > 10"
    using fl by (simp add: k ms)
  have "dgreater (ddiv (Fin (14211 / 128)) (double_of_int 12)) (round_double (2 / 10))"
    by code_simp
  then have c: "dgreater (ddiv (shard_time (method_stats ex_after_reap (stats_key (current_run ex_after_reap))))
              (double_of_int (shard_calls (method_stats ex_after_reap (stats_key (current_run ex_after_reap))))))
     (round_double (2 / 10))"
    by (simp add: k ms)
  have d: "dgreater (fst (idle_time ex_env_slow (workers ex_after_reap ! 1) ex_after_reap))
     (round_double (5 / 10))"
    by code_simp
  have e: "fst (steal_condition ex_env_slow
          (ddiv (shard_time (method_stats ex_after_reap (stats_key (current_run ex_after_reap))))
             (double_of_int (shard_calls (method_stats ex_after_reap (stats_key (current_run ex_after_reap))))))
          1 ex_after_reap)"
    using b c d
    by (cases "idle_time ex_env_slow (workers ex_after_reap ! 1) ex_after_reap")
      (simp add: steal_condition_def)
  have f: "returned (reap_iteration ex_env_slow ex_timed) = Some ()"
    by code_simp
  have g: "steal_attempts ex_timed = []"
    by code_simp
  from no_steal_attempt_with_steady_clock [OF mono, of ex_timed] g
  have h: "steal_attempts (state_of (reap_iteration ex_env_slow ex_timed)) = []" by simp
  from a b c d e f g h show ?thesis by blast
qed


text \<open>
  Claim C3 (best pending task). \<^verbatim>\<open>get_next\<close> and \<^verbatim>\<open>steal_work\<close> both take
  \<^verbatim>\<open>max_element\<close> of the pending tasks with \<^verbatim>\<open>WeightCompare\<close> as the less-than.
  The claim has the ranking of the stolen flag the wrong way round: \<^verbatim>\<open>WeightCompare(a, b)\<close>
  holds when \<open>a\<close> is stolen and \<open>b\<close> is not, so a stolen task ranks below every task
  that is not stolen. With a stolen and an unstolen pending task of the same size, the
  unstolen one is selected and dispatched.
\<close>

theorem stolen_task_outranks_counterexample:
  "pending ex_stolen_first =
     [(new_TaskState (Taskid 0 0) 1)\<lparr>stolen := True\<rparr>, new_TaskState (Taskid 0 1) 1] \<and>
   WeightCompare ((new_TaskState (Taskid 0 0) 1)\<lparr>stolen := True\<rparr>) (new_TaskState (Taskid 0 1) 1) \<and>
   \<not> WeightCompare (new_TaskState (Taskid 0 1) 1) ((new_TaskState (Taskid 0 0) 1)\<lparr>stolen := True\<rparr>) \<and>
   max_element WeightCompare (pending ex_stolen_first) = Some (1, new_TaskState (Taskid 0 1) 1) \<and>
   map_option (\<lambda>(b, w, req). (b, kr_shard req, map status (work w)))
       (get_next ex_run (Fin 0) default_KernelRequest ex_stolen_first) =
     Some (True, 1, [PENDING, ACTIVE])"
  by code_simp

text \<open>
  Claim C3 as amended: under \<^verbatim>\<open>WeightCompare\<close> a stolen task ranks below every task
  that is not stolen, and between two tasks with equal stolen flags the larger size wins;
  \<^verbatim>\<open>get_next\<close> marks active, and names in its request, the task \<^verbatim>\<open>max_element\<close>
  selects among the pending tasks of the worker, and \<^verbatim>\<open>steal_work\<close> migrates the
  task \<^verbatim>\<open>max_element\<close> selects among the pending tasks of the source worker; the
  selected task is as \<open>best_pending\<close> says.
\<close>

theorem selection_by_WeightCompare:
  "(stolen a \<and> \<not> stolen b \<longrightarrow> WeightCompare a b) \<and>
   (stolen a = stolen b \<longrightarrow> WeightCompare a b = (sint (size_task a) < sint (size_task b))) \<and>
   (pending w \<noteq> [] \<and> rd_table r \<noteq> None \<longrightarrow>
      (\<exists>i best w' req'. max_element WeightCompare (pending w) = Some (i, best) \<and>
         best_pending (pending w) i best \<and>
         get_next r now req w = Some (True, w', req') \<and>
         work w' = map_modify (id_task best) (\<lambda>t. t\<lparr>status := ACTIVE\<rparr>) (work w) \<and>
         kr_shard req' = shard (id_task best))) \<and>
   (steal_work r idle avg m = Ok True m' \<longrightarrow>
      (\<exists>d s src i task. max_element PendingCompare (workers m) = Some (s, src) \<and>
         max_element WeightCompare (pending src) = Some (i, task) \<and>
         best_pending (pending src) i task \<and>
         migrate s d task m = Ok True m'))"
proof -
  have 1: "stolen a \<and> \<not> stolen b \<longrightarrow> WeightCompare a b"
    by (simp add: WeightCompare_def)
  have 2: "stolen a = stolen b \<longrightarrow> WeightCompare a b = (sint (size_task a) < sint (size_task b))"
    by (auto simp: WeightCompare_def)
  have 3: "\<exists>i best w' req'. max_element WeightCompare (pending w) = Some (i, best) \<and>
         best_pending (pending w) i best \<and>
         get_next r now req w = Some (True, w', req') \<and>
         work w' = map_modify (id_task best) (\<lambda>t. t\<lparr>status := ACTIVE\<rparr>) (work w) \<and>
         kr_shard req' = shard (id_task best)"
    if p: "pending w \<noteq> []" and t: "rd_table r \<noteq> None"
  proof -
    from max_element_Some[OF p] obtain i best where
      m: "max_element WeightCompare (pending w) = Some (i, best)" by blast
    from t obtain tb where tb: "rd_table r = Some tb" by blast
    show ?thesis
      using m tb best_pending_max_element[OF m] by (simp add: get_next_def)
  qed
  have 4: "\<exists>d s src i task. max_element PendingCompare (workers m) = Some (s, src) \<and>
         max_element WeightCompare (pending src) = Some (i, task) \<and>
         best_pending (pending src) i task \<and>
         migrate s d task m = Ok True m'"
    if s: "steal_work r idle avg m = Ok True m'"
  proof -
    from steal_work_Ok[OF s] obtain d s src task where
      g: "steal_guards idle m d s src task" and mg: "migrate s d task m = Ok True m'" by auto
    from g obtain i where i: "max_element WeightCompare (pending src) = Some (i, task)"
      and ps: "max_element PendingCompare (workers m) = Some (s, src)"
      by (auto simp: steal_guards_def)
    from best_pending_max_element[OF i] i ps mg show ?thesis by blast
  qed
  from 1 2 3 4 show ?thesis by blast
qed

theorem selection_by_WeightCompare_witness:
  "(stolen ((new_TaskState (Taskid 0 0) 1)\<lparr>stolen := True\<rparr>) \<and> \<not> stolen (new_TaskState (Taskid 0 1) 1)) \<and>
   WeightCompare ((new_TaskState (Taskid 0 0) 1)\<lparr>stolen := True\<rparr>) (new_TaskState (Taskid 0 1) 1) \<and>
   (pending ex_stolen_first \<noteq> [] \<and> rd_table ex_run \<noteq> None) \<and>
   (\<exists>i best w' req'. max_element WeightCompare (pending ex_stolen_first) = Some (i, best) \<and>
         best_pending (pending ex_stolen_first) i best \<and>
         get_next ex_run (Fin 0) default_KernelRequest ex_stolen_first = Some (True, w', req') \<and>
         work w' = map_modify (id_task best) (\<lambda>t. t\<lparr>status := ACTIVE\<rparr>) (work ex_stolen_first) \<and>
         kr_shard req' = shard (id_task best)) \<and>
   steal_work ex_run 1 (Fin (1 / 2)) ex_master = Ok True (state_of (steal_work ex_run 1 (Fin (1 / 2)) ex_master)) \<and>
   (\<exists>d s src i task. max_element PendingCompare (workers ex_master) = Some (s, src) \<and>
         max_element WeightCompare (pending src) = Some (i, task) \<and>
         best_pending (pending src) i task \<and>
         migrate s d task ex_master = Ok True (state_of (steal_work ex_run 1 (Fin (1 / 2)) ex_master)))"
proof -
  have h1: "stolen ((new_TaskState (Taskid 0 0) 1)\<lparr>stolen := True\<rparr>) \<and> \<not> stolen (new_TaskState (Taskid 0 1) 1)"
    by code_simp
  have h2: "pending ex_stolen_first \<noteq> [] \<and> rd_table ex_run \<noteq> None"
    by code_simp
  have "returned (steal_work ex_run 1 (Fin (1 / 2)) ex_master) = Some True"
    by code_simp
  then have h3: "steal_work ex_run 1 (Fin (1 / 2)) ex_master =
      Ok True (state_of (steal_work ex_run 1 (Fin (1 / 2)) ex_master))"
    by (rule returned_Some)
  show ?thesis
    using h1 h2 h3
      selection_by_WeightCompare [of "(new_TaskState (Taskid 0 0) 1)\<lparr>stolen := True\<rparr>"
        "new_TaskState (Taskid 0 1) 1" ex_stolen_first ex_run "Fin 0" default_KernelRequest
        1 "Fin (1 / 2)" ex_master "state_of (steal_work ex_run 1 (Fin (1 / 2)) ex_master)"]
    by blast
qed

text \<open>
  Claim C4 (migration). \<^verbatim>\<open>assign_shard\<close> has no table parameter: it runs over every
  registered table, so the migration moves the shard index of the task in every table
  that has it, not the single task id of the run's table. In the example, the steal of
  the task of shard 0 of table 0 also moves shard 0 of table 1 from the source to the
  idle worker.
\<close>

theorem single_taskid_migration_counterexample:
  "returned (steal_work ex_run 1 (Fin (1 / 2)) ex_master) = Some True \<and>
   Taskid 1 0 \<in> shards (workers ex_master ! 0) \<and>
   Taskid 1 0 \<notin> shards (workers (state_of (steal_work ex_run 1 (Fin (1 / 2)) ex_master)) ! 0) \<and>
   Taskid 1 0 \<notin> shards (workers ex_master ! 1) \<and>
   Taskid 1 0 \<in> shards (workers (state_of (steal_work ex_run 1 (Fin (1 / 2)) ex_master)) ! 1) \<and>
   map id_task (work (workers (state_of (steal_work ex_run 1 (Fin (1 / 2)) ex_master)) ! 1)) = [Taskid 0 0]"
  unfolding ex_steal_half by code_simp

text \<open>
  Claim C4 as amended: when \<^verbatim>\<open>steal_work\<close> migrates a task to an idle worker (one
  with no pending task, as at the call in \<^verbatim>\<open>barrier\<close>), the task is found in the
  work map of the idle worker with its stolen flag set and is no longer in the work map of
  the source; the shard set of the source loses, and the shard set of the idle worker
  gains, the task ids of the task's shard index in every registered table that has that
  shard (\<open>shard_ids\<close>), so that ids of other shard indices stay where they are; the
  other workers are unchanged.
\<close>

theorem steal_work_migration:
  assumes "steal_work r idle_worker avg m = Ok True m'"
    and "num_pending (workers m ! nat idle_worker) = 0"
  shows "\<exists>s src task. steal_guards idle_worker m (nat idle_worker) s src task \<and> s \<noteq> nat idle_worker \<and>
     length (workers m') = length (workers m) \<and>
     map_find (id_task task) (work (workers m' ! nat idle_worker)) = Some (task\<lparr>stolen := True\<rparr>) \<and>
     map_find (id_task task) (work (workers m' ! s)) = None \<and>
     work (workers m' ! s) = map_erase (id_task task) (work src) \<and>
     work (workers m' ! nat idle_worker) =
       map_put (task\<lparr>stolen := True\<rparr>) (work (workers m ! nat idle_worker)) \<and>
     shards (workers m' ! s) = shards src - shard_ids (tables m) (shard (id_task task)) \<and>
     shards (workers m' ! nat idle_worker) =
       shards (workers m ! nat idle_worker) \<union> shard_ids (tables m) (shard (id_task task)) \<and>
     (\<forall>k<length (workers m). k \<noteq> s \<and> k \<noteq> nat idle_worker \<longrightarrow> workers m' ! k = workers m ! k)"
proof -
  from steal_work_Ok[OF assms(1)] obtain d s src task where
    g: "steal_guards idle_worker m d s src task" and mg: "migrate s d task m = Ok True m'" by auto
  note gd = steal_guardsD[OF g]
  have sd: "s \<noteq> d" using steal_guards_idle[OF g assms(2)] .
  from migrate_OkD[OF mg gd(2) gd(1) sd] have m': "m' = migrated s d task m" by simp
  from migrated_effects[OF gd(2) gd(1) sd gd(5)] g sd show ?thesis
    unfolding m' gd(3) gd(6) by blast
qed

theorem steal_work_migration_witness:
  "steal_work ex_run 1 (Fin (1 / 2)) ex_master =
     Ok True (state_of (steal_work ex_run 1 (Fin (1 / 2)) ex_master)) \<and>
   num_pending (workers ex_master ! nat 1) = 0 \<and>
   (\<exists>s src task. steal_guards 1 ex_master (nat 1) s src task \<and> s \<noteq> nat 1 \<and>
     map_find (id_task task)
       (work (workers (state_of (steal_work ex_run 1 (Fin (1 / 2)) ex_master)) ! nat 1)) =
       Some (task\<lparr>stolen := True\<rparr>) \<and>
     shards (workers (state_of (steal_work ex_run 1 (Fin (1 / 2)) ex_master)) ! s) =
       shards src - shard_ids (tables ex_master) (shard (id_task task)))"
proof -
  have "returned (steal_work ex_run 1 (Fin (1 / 2)) ex_master) = Some True"
    unfolding ex_steal_half by simp
  then have h1: "steal_work ex_run 1 (Fin (1 / 2)) ex_master =
      Ok True (state_of (steal_work ex_run 1 (Fin (1 / 2)) ex_master))"
    by (rule returned_Some)
  have h2: "num_pending (workers ex_master ! nat 1) = 0"
    by code_simp
  from steal_work_migration [OF h1 h2] h1 h2 show ?thesis by blast
qed

text \<open>
  Claim C5 (assign_worker). No worker is dead (\<^verbatim>\<open>dead_workers\<close> is empty in every
  run), and the shard is a shard of the registered table. When one worker, and no other,
  has (table, shard) in its shards, \<^verbatim>\<open>assign_worker\<close> returns that worker, which is
  alive. When no worker has it, \<^verbatim>\<open>assign_worker\<close> returns the alive worker with the
  fewest shards, the first of them in the vector, which is the one of the lowest id when
  the worker at position \<open>k\<close> has the id \<open>k\<close> (as the constructor of the master makes
  them), and puts (table, shard) into its shards; it aborts when no worker is alive.
  Whenever it returns, the work map of the returned worker holds a new task (pending,
  of size 1, not stolen) under (table, shard).
\<close>

theorem assign_worker_result:
  assumes "dead_workers m = {}"
    and "(tb, t) \<in> set (tables m)" and "sh < int (numShards t)"
  shows
  "(i < length (workers m) \<and> Taskid tb sh \<in> shards (workers m ! i) \<and>
    (\<forall>j<length (workers m). Taskid tb sh \<in> shards (workers m ! j) \<longrightarrow> j = i) \<longrightarrow>
      alive (dead_workers m) (workers m ! i) \<and>
      assign_worker tb sh m =
        Ok i (m\<lparr>workers := (workers m)[i := (workers m ! i)
                \<lparr>work := map_put (new_TaskState (Taskid tb sh) 1) (work (workers m ! i))\<rparr>]\<rparr>)) \<and>
   ((\<forall>j<length (workers m). Taskid tb sh \<notin> shards (workers m ! j)) \<and> workers m \<noteq> [] \<longrightarrow>
      (\<exists>b<length (workers m). alive (dead_workers m) (workers m ! b) \<and>
         (\<forall>k<length (workers m). alive (dead_workers m) (workers m ! k) \<longrightarrow>
            card (shards (workers m ! b)) \<le> card (shards (workers m ! k))) \<and>
         (\<forall>k<b. alive (dead_workers m) (workers m ! k) \<longrightarrow>
            card (shards (workers m ! b)) < card (shards (workers m ! k))) \<and>
         ((\<forall>k<length (workers m). id_worker (workers m ! k) = int k) \<longrightarrow>
            (\<forall>k<length (workers m). alive (dead_workers m) (workers m ! k) \<and>
               card (shards (workers m ! k)) = card (shards (workers m ! b)) \<longrightarrow>
               id_worker (workers m ! b) \<le> id_worker (workers m ! k))) \<and>
         Taskid tb sh \<in> shards (workers m ! b) \<union> shard_ids (tables m) sh \<and>
         assign_worker tb sh m =
           Ok b (m\<lparr>workers := (workers m)[b := (workers m ! b)
                   \<lparr>shards := shards (workers m ! b) \<union> shard_ids (tables m) sh,
                    work := map_put (new_TaskState (Taskid tb sh) 1) (work (workers m ! b))\<rparr>]\<rparr>))) \<and>
   ((\<forall>j<length (workers m). Taskid tb sh \<notin> shards (workers m ! j)) \<and>
    (\<forall>w\<in>set (workers m). \<not> alive (dead_workers m) w) \<longrightarrow>
      (\<exists>e. assign_worker tb sh m = Aborted e m)) \<and>
   (assign_worker tb sh m = Ok i m' \<longrightarrow>
      i < length (workers m') \<and>
      map_find (Taskid tb sh) (work (workers m' ! i)) = Some (new_TaskState (Taskid tb sh) 1))"
proof -
  let ?t = "new_TaskState (Taskid tb sh) 1"
  let ?own = "\<lambda>w. serves w (Taskid tb sh)"
  have idt: "id_task ?t = Taskid tb sh" by (simp add: new_TaskState_def)
  have al: "alive (dead_workers m) w" for w by (simp add: alive_def assms(1))
  have own: "Taskid tb sh \<in> shard_ids (tables m) sh"
    using assms(2,3) by (force simp: shard_ids_def)
  have found: "j < length (workers m) \<and> Taskid tb sh \<in> shards (workers m ! j) \<and>
      assign_worker tb sh m =
        Ok j (m\<lparr>workers := (workers m)[j := (workers m ! j)
                \<lparr>work := map_put ?t (work (workers m ! j))\<rparr>]\<rparr>)"
    if w: "worker_for_shard m tb sh = Some j" for j
  proof -
    from w have "first_index ?own (workers m) = Some j"
      by (simp add: worker_for_shard_def)
    from first_index_Some[OF this] w show ?thesis
      by (simp add: serves_def assign_worker_def assign_task_def)
  qed
  have none: "worker_for_shard m tb sh = None"
    if "\<forall>j<length (workers m). Taskid tb sh \<notin> shards (workers m ! j)"
    using that by (auto simp: worker_for_shard_def first_index_None serves_def in_set_conv_nth)
  have 1: "alive (dead_workers m) (workers m ! i) \<and>
      assign_worker tb sh m =
        Ok i (m\<lparr>workers := (workers m)[i := (workers m ! i)
                \<lparr>work := map_put ?t (work (workers m ! i))\<rparr>]\<rparr>)"
    if i: "i < length (workers m)" "Taskid tb sh \<in> shards (workers m ! i)"
      and u: "\<forall>j<length (workers m). Taskid tb sh \<in> shards (workers m ! j) \<longrightarrow> j = i"
  proof -
    have "worker_for_shard m tb sh \<noteq> None"
      using i nth_mem[OF i(1)]
      by (auto simp: worker_for_shard_def first_index_None serves_def)
    then obtain j where j: "worker_for_shard m tb sh = Some j" by blast
    from found[OF j] u have "j = i" by blast
    with found[OF j] al show ?thesis by simp
  qed
  have best: "\<exists>b<length (workers m). alive (dead_workers m) (workers m ! b) \<and>
         (\<forall>k<length (workers m). alive (dead_workers m) (workers m ! k) \<longrightarrow>
            card (shards (workers m ! b)) \<le> card (shards (workers m ! k))) \<and>
         (\<forall>k<b. alive (dead_workers m) (workers m ! k) \<longrightarrow>
            card (shards (workers m ! b)) < card (shards (workers m ! k))) \<and>
         ((\<forall>k<length (workers m). id_worker (workers m ! k) = int k) \<longrightarrow>
            (\<forall>k<length (workers m). alive (dead_workers m) (workers m ! k) \<and>
               card (shards (workers m ! k)) = card (shards (workers m ! b)) \<longrightarrow>
               id_worker (workers m ! b) \<le> id_worker (workers m ! k))) \<and>
         Taskid tb sh \<in> shards (workers m ! b) \<union> shard_ids (tables m) sh \<and>
         assign_worker tb sh m =
           Ok b (m\<lparr>workers := (workers m)[b := (workers m ! b)
                   \<lparr>shards := shards (workers m ! b) \<union> shard_ids (tables m) sh,
                    work := map_put ?t (work (workers m ! b))\<rparr>]\<rparr>)"
    if w: "worker_for_shard m tb sh = None" and a: "\<exists>w\<in>set (workers m). alive (dead_workers m) w"
  proof -
    let ?r = "best_loop (dead_workers m) (workers m) [0..<length (workers m)] None"
    from a obtain k where k: "k < length (workers m)" "alive (dead_workers m) (workers m ! k)"
      by (auto simp: in_set_conv_nth)
    with best_loop_upto[of "dead_workers m" "workers m" "length (workers m)"]
    obtain b where b: "?r = Some b" by (cases ?r) auto
    with best_loop_upto[of "dead_workers m" "workers m" "length (workers m)"]
    have p: "b < length (workers m)" "alive (dead_workers m) (workers m ! b)"
      "\<forall>k<length (workers m). alive (dead_workers m) (workers m ! k) \<longrightarrow>
            card (shards (workers m ! b)) \<le> card (shards (workers m ! k))"
      "\<forall>k<b. alive (dead_workers m) (workers m ! k) \<longrightarrow>
            card (shards (workers m ! b)) < card (shards (workers m ! k))"
      by auto
    have ids: "id_worker (workers m ! b) \<le> id_worker (workers m ! k)"
      if e: "\<forall>k<length (workers m). id_worker (workers m ! k) = int k"
        and k: "k < length (workers m)" "alive (dead_workers m) (workers m ! k)"
          "card (shards (workers m ! k)) = card (shards (workers m ! b))" for k
    proof -
      have "\<not> k < b" using p(4) k(2,3) by auto
      with e k(1) p(1) show ?thesis by simp
    qed
    have "assign_worker tb sh m =
           Ok b (m\<lparr>workers := (workers m)[b := (workers m ! b)
                   \<lparr>shards := shards (workers m ! b) \<union> shard_ids (tables m) sh,
                    work := map_put ?t (work (workers m ! b))\<rparr>]\<rparr>)"
      using w b p(2)
      by (simp add: assign_worker_def assign_shard_def assign_shard_set_insert assign_task_def)
    with p ids own show ?thesis by blast
  qed
  have 2: "\<exists>b<length (workers m). alive (dead_workers m) (workers m ! b) \<and>
         (\<forall>k<length (workers m). alive (dead_workers m) (workers m ! k) \<longrightarrow>
            card (shards (workers m ! b)) \<le> card (shards (workers m ! k))) \<and>
         (\<forall>k<b. alive (dead_workers m) (workers m ! k) \<longrightarrow>
            card (shards (workers m ! b)) < card (shards (workers m ! k))) \<and>
         ((\<forall>k<length (workers m). id_worker (workers m ! k) = int k) \<longrightarrow>
            (\<forall>k<length (workers m). alive (dead_workers m) (workers m ! k) \<and>
               card (shards (workers m ! k)) = card (shards (workers m ! b)) \<longrightarrow>
               id_worker (workers m ! b) \<le> id_worker (workers m ! k))) \<and>
         Taskid tb sh \<in> shards (workers m ! b) \<union> shard_ids (tables m) sh \<and>
         assign_worker tb sh m =
           Ok b (m\<lparr>workers := (workers m)[b := (workers m ! b)
                   \<lparr>shards := shards (workers m ! b) \<union> shard_ids (tables m) sh,
                    work := map_put ?t (work (workers m ! b))\<rparr>]\<rparr>)"
    if n: "\<forall>j<length (workers m). Taskid tb sh \<notin> shards (workers m ! j)" and ne: "workers m \<noteq> []"
  proof -
    from ne obtain w where "w \<in> set (workers m)" by (cases "workers m") auto
    with al have "\<exists>w\<in>set (workers m). alive (dead_workers m) w" by blast
    from best[OF none[OF n] this] show ?thesis .
  qed
  have ab: "\<exists>e. assign_worker tb sh m = Aborted e m"
    if w: "worker_for_shard m tb sh = None" and a: "\<forall>w\<in>set (workers m). \<not> alive (dead_workers m) w"
  proof -
    let ?r = "best_loop (dead_workers m) (workers m) [0..<length (workers m)] None"
    have "?r = None"
    proof (cases ?r)
      case None
      then show ?thesis .
    next
      case (Some b)
      with best_loop_upto[of "dead_workers m" "workers m" "length (workers m)"]
      have "b < length (workers m)" "alive (dead_workers m) (workers m ! b)" by auto
      with a show ?thesis by auto
    qed
    with w show ?thesis by (simp add: assign_worker_def)
  qed
  have 3: "\<exists>e. assign_worker tb sh m = Aborted e m"
    if n: "\<forall>j<length (workers m). Taskid tb sh \<notin> shards (workers m ! j)"
      and a: "\<forall>w\<in>set (workers m). \<not> alive (dead_workers m) w"
    using ab[OF none[OF n] a] .
  have 4: "i < length (workers m') \<and> map_find (Taskid tb sh) (work (workers m' ! i)) = Some ?t"
    if r: "assign_worker tb sh m = Ok i m'"
  proof (cases "worker_for_shard m tb sh")
    case (Some j)
    from found[OF Some] r have "j = i" "i < length (workers m)"
      "m' = m\<lparr>workers := (workers m)[i := (workers m ! i)\<lparr>work := map_put ?t (work (workers m ! i))\<rparr>]\<rparr>"
      by auto
    then show ?thesis using map_find_map_put_same[of ?t] idt by simp
  next
    case None
    have "\<exists>w\<in>set (workers m). alive (dead_workers m) w"
    proof (rule ccontr)
      assume "\<not> ?thesis"
      with ab[OF None] r show False by auto
    qed
    from best[OF None this] r obtain b where "b < length (workers m)" "b = i"
      "m' = m\<lparr>workers := (workers m)[b := (workers m ! b)
                   \<lparr>shards := shards (workers m ! b) \<union> shard_ids (tables m) sh,
                    work := map_put ?t (work (workers m ! b))\<rparr>]\<rparr>"
      by auto
    then show ?thesis using map_find_map_put_same[of ?t] idt by simp
  qed
  from 1 2 3 4 show ?thesis by blast
qed

theorem assign_worker_result_witness:
  "dead_workers ex_master = {} \<and>
   (0, \<lparr>id_table = 0, numShards = 2\<rparr>) \<in> set (tables ex_master) \<and>
   (0 :: int) < int (numShards \<lparr>id_table = 0, numShards = 2\<rparr>) \<and>
   Taskid 0 0 \<in> shards (workers ex_master ! 0) \<and>
   Taskid 0 0 \<notin> shards (workers ex_master ! 1) \<and>
   alive (dead_workers ex_master) (workers ex_master ! 0) \<and>
   assign_worker 0 0 ex_master =
     Ok 0 (ex_master\<lparr>workers := (workers ex_master)[0 := (workers ex_master ! 0)
        \<lparr>work := map_put (new_TaskState (Taskid 0 0) 1) (work (workers ex_master ! 0))\<rparr>]\<rparr>) \<and>
   map_find (Taskid 0 0) (work (workers (state_of (assign_worker 0 0 ex_master)) ! 0)) =
     Some (new_TaskState (Taskid 0 0) 1) \<and>
   Taskid 0 0 \<notin> shards (workers ex_master_unowned ! 0) \<and>
   Taskid 0 0 \<notin> shards (workers ex_master_unowned ! 1) \<and>
   returned (assign_worker 0 0 ex_master_unowned) = Some 1 \<and>
   assign_worker 0 0 ex_master_unowned =
     Ok 1 (ex_master_unowned\<lparr>workers := (workers ex_master_unowned)[1 := (workers ex_master_unowned ! 1)
        \<lparr>shards := shards (workers ex_master_unowned ! 1) \<union> shard_ids (tables ex_master_unowned) 0,
         work := map_put (new_TaskState (Taskid 0 0) 1) (work (workers ex_master_unowned ! 1))\<rparr>]\<rparr>) \<and>
   Taskid 0 0 \<in> shards (workers (state_of (assign_worker 0 0 ex_master_unowned)) ! 1)"
proof -
  have h1: "dead_workers ex_master = {}" "dead_workers ex_master_unowned = {}"
    by code_simp+
  have h2: "(0, \<lparr>id_table = 0, numShards = 2\<rparr>) \<in> set (tables ex_master)"
    "(0, \<lparr>id_table = 0, numShards = 2\<rparr>) \<in> set (tables ex_master_unowned)"
    by code_simp+
  have h3: "(0 :: int) < int (numShards \<lparr>id_table = 0, numShards = 2\<rparr>)"
    by simp
  have len: "length (workers ex_master) = 2" "length (workers ex_master_unowned) = 2"
    by code_simp+
  have o: "Taskid 0 0 \<in> shards (workers ex_master ! 0)" "Taskid 0 0 \<notin> shards (workers ex_master ! 1)"
    by code_simp+
  have u: "Taskid 0 0 \<notin> shards (workers ex_master_unowned ! 0)"
    "Taskid 0 0 \<notin> shards (workers ex_master_unowned ! 1)"
    by code_simp+
  have uniq: "\<forall>j<length (workers ex_master). Taskid 0 0 \<in> shards (workers ex_master ! j) \<longrightarrow> j = 0"
    using o(2) by (auto simp: len less_Suc_eq numeral_2_eq_2)
  have nobody: "\<forall>j<length (workers ex_master_unowned). Taskid 0 0 \<notin> shards (workers ex_master_unowned ! j)"
    using u by (auto simp: len less_Suc_eq numeral_2_eq_2)
  have ne: "workers ex_master_unowned \<noteq> []" using len(2) by auto
  have r0: "returned (assign_worker 0 0 ex_master) = Some 0" by code_simp
  then have e0: "assign_worker 0 0 ex_master = Ok 0 (state_of (assign_worker 0 0 ex_master))"
    by (rule returned_Some)
  have r1: "returned (assign_worker 0 0 ex_master_unowned) = Some 1" by code_simp
  then have e1: "assign_worker 0 0 ex_master_unowned =
      Ok 1 (state_of (assign_worker 0 0 ex_master_unowned))"
    by (rule returned_Some)
  note a = assign_worker_result [OF h1(1) h2(1) h3, where i = 0
      and m' = "state_of (assign_worker 0 0 ex_master)"]
  from a o(1) uniq len(1)
  have c1: "alive (dead_workers ex_master) (workers ex_master ! 0) \<and>
   assign_worker 0 0 ex_master =
     Ok 0 (ex_master\<lparr>workers := (workers ex_master)[0 := (workers ex_master ! 0)
        \<lparr>work := map_put (new_TaskState (Taskid 0 0) 1) (work (workers ex_master ! 0))\<rparr>]\<rparr>)"
    by simp
  from a e0
  have c2: "map_find (Taskid 0 0) (work (workers (state_of (assign_worker 0 0 ex_master)) ! 0)) =
     Some (new_TaskState (Taskid 0 0) 1)"
    by blast
  note b = assign_worker_result [OF h1(2) h2(2) h3, where i = 0
      and m' = "state_of (assign_worker 0 0 ex_master_unowned)"]
  from b nobody ne obtain k where k: "k < length (workers ex_master_unowned)"
    "assign_worker 0 0 ex_master_unowned =
       Ok k (ex_master_unowned\<lparr>workers := (workers ex_master_unowned)[k := (workers ex_master_unowned ! k)
          \<lparr>shards := shards (workers ex_master_unowned ! k) \<union> shard_ids (tables ex_master_unowned) 0,
           work := map_put (new_TaskState (Taskid 0 0) 1) (work (workers ex_master_unowned ! k))\<rparr>]\<rparr>)"
    "Taskid 0 0 \<in> shards (workers ex_master_unowned ! k) \<union> shard_ids (tables ex_master_unowned) 0"
    by blast
  from k(2) e1 have k1: "k = 1" by simp
  have c3: "assign_worker 0 0 ex_master_unowned =
     Ok 1 (ex_master_unowned\<lparr>workers := (workers ex_master_unowned)[1 := (workers ex_master_unowned ! 1)
        \<lparr>shards := shards (workers ex_master_unowned ! 1) \<union> shard_ids (tables ex_master_unowned) 0,
         work := map_put (new_TaskState (Taskid 0 0) 1) (work (workers ex_master_unowned ! 1))\<rparr>]\<rparr>)"
    using k(2) unfolding k1 .
  have c4: "Taskid 0 0 \<in> shards (workers (state_of (assign_worker 0 0 ex_master_unowned)) ! 1)"
    using k(3) len(2) unfolding c3 k1 by simp
  from h1(1) h2(1) h3 o u c1 c2 r1 c3 c4 show ?thesis by blast
qed


text \<open>
  Claim C6 (the cost test). The table of the run has at least one shard, and their
  number is an \<^verbatim>\<open>int\<close>. When \<^verbatim>\<open>steal_work\<close> has passed its earlier guards, the
  average size is exactly 1; the move cost is
  \<^verbatim>\<open>max(1.0, 2 * t.size * avg_completion_time / 1.0)\<close> and eta is the sum, in the
  order of the pending tasks of the source, of
  \<^verbatim>\<open>max(1.0, p.size * avg_completion_time / 1.0)\<close>, each operation a rounded
  operation on doubles, and \<^verbatim>\<open>2 * t.size\<close> the product of two \<^verbatim>\<open>int\<close>s (twice the
  size when the size is below \<open>2 ^ 30\<close> in magnitude); neither is a NaN.
  \<^verbatim>\<open>steal_work\<close> runs the migration exactly when eta is greater than the move cost,
  and returns false with the state unchanged otherwise. The migration to another worker
  returns true, in the state \<open>migrated\<close>, when the source owns the shard of the task in
  every table that has it.
\<close>

theorem steal_work_decision:
  assumes "steal_guards idle_worker m d s src task"
    and "rd_table r = Some tb" and "0 < numShards tb" and "numShards tb < 2 ^ 31"
  shows "average_size (numShards tb) = Fin 1 \<and>
     move_cost task avg (average_size (numShards tb)) =
       std_max (Fin 1)
         (ddiv (dmul (double_of_int (sint (2 * size_task task))) avg) (Fin 1)) \<and>
     eta (pending src) avg (average_size (numShards tb)) =
       foldl (\<lambda>e p. dadd e (std_max (Fin 1)
                (ddiv (dmul (double_of_int (sint (size_task p))) avg) (Fin 1))))
         (Fin 0) (pending src) \<and>
     (- (2 ^ 30) \<le> sint (size_task task) \<and> sint (size_task task) < 2 ^ 30 \<longrightarrow>
        sint (2 * size_task task) = 2 * sint (size_task task)) \<and>
     not_below (move_cost task avg (average_size (numShards tb))) \<and>
     not_below (eta (pending src) avg (average_size (numShards tb))) \<and>
     steal_work r idle_worker avg m =
       (if dgreater (eta (pending src) avg (Fin 1)) (move_cost task avg (Fin 1))
        then migrate s d task m else Ok False m) \<and>
     (s \<noteq> d \<and> distinct (map fst (tables m)) \<and>
      shard_ids (tables m) (shard (id_task task)) \<subseteq> shards src \<longrightarrow>
        migrate s d task m = Ok True (migrated s d task m))"
proof -
  note gd = steal_guardsD[OF assms(1)]
  have "numShards tb < 2 ^ 53" using assms(4) by (rule less_trans) simp
  then have 1: "average_size (numShards tb) = Fin 1" by (rule average_size_pos[OF assms(3)])
  have 2: "steal_work r idle_worker avg m =
       (if dgreater (eta (pending src) avg (Fin 1)) (move_cost task avg (Fin 1))
        then migrate s d task m else Ok False m)"
    using steal_work_guarded[OF assms(1,2), of avg] 1
      not_dle_dgreater[OF eta_not_below move_cost_not_below, of "pending src" avg "Fin 1" task avg "Fin 1"]
    by auto
  have 3: "migrate s d task m = Ok True (migrated s d task m)"
    if "s \<noteq> d" "distinct (map fst (tables m))"
      "shard_ids (tables m) (shard (id_task task)) \<subseteq> shards src"
    using migrate_Ok[OF gd(2) gd(1) that(1,2) _ gd(5)] that(3) gd(3) by simp
  have 4: "sint (2 * size_task task) = 2 * sint (size_task task)"
    if "- (2 ^ 30) \<le> sint (size_task task)" "sint (size_task task) < 2 ^ 30"
  proof -
    have "sint (2 * size_task task) = signed_take_bit 31 (2 * sint (size_task task))"
      by (simp add: sint_word_ariths)
    also have "\<dots> = 2 * sint (size_task task)"
      using that by (simp add: signed_take_bit_int_eq_self)
    finally show ?thesis .
  qed
  show ?thesis
    using 1 2 3 4 eta_not_below[of "pending src" avg] move_cost_not_below[of task avg]
    by (simp add: move_cost_def eta_def)
qed

theorem steal_work_decision_witness:
  "steal_guards 1 ex_master 1 0 (workers ex_master ! 0) (new_TaskState (Taskid 0 0) 1) \<and>
   rd_table ex_run = Some \<lparr>id_table = 0, numShards = 2\<rparr> \<and>
   0 < numShards \<lparr>id_table = 0, numShards = 2\<rparr> \<and>
   numShards \<lparr>id_table = 0, numShards = 2\<rparr> < 2 ^ 31 \<and>
   (0 \<noteq> (1::nat) \<and> distinct (map fst (tables ex_master)) \<and>
    shard_ids (tables ex_master) (shard (id_task (new_TaskState (Taskid 0 0) 1)))
      \<subseteq> shards (workers ex_master ! 0)) \<and>
   average_size 2 = Fin 1 \<and>
   move_cost (new_TaskState (Taskid 0 0) 1) (Fin (1 / 2)) (Fin 1) = Fin 1 \<and>
   eta (pending (workers ex_master ! 0)) (Fin (1 / 2)) (Fin 1) = Fin 2 \<and>
   steal_work ex_run 1 (Fin (1 / 2)) ex_master =
     Ok True (migrated 0 1 (new_TaskState (Taskid 0 0) 1) ex_master) \<and>
   move_cost (new_TaskState (Taskid 0 0) 1) (Fin 1) (Fin 1) = Fin 2 \<and>
   eta (pending (workers ex_master ! 0)) (Fin 1) (Fin 1) = Fin 2 \<and>
   steal_work ex_run 1 (Fin 1) ex_master = Ok False ex_master \<and>
   steal_guards 1 ex_master_sized 1 0 (workers ex_master_sized ! 0) (new_TaskState (Taskid 0 0) 3) \<and>
   eta (pending (workers ex_master_sized ! 0)) (round_double (12 / 10)) (Fin 1) =
     Fin (8106479329266893 / 1125899906842624) \<and>
   move_cost (new_TaskState (Taskid 0 0) 3) (round_double (12 / 10)) (Fin 1) =
     Fin (2026619832316723 / 281474976710656) \<and>
   steal_work ex_run_sized 1 (round_double (12 / 10)) ex_master_sized =
     Ok True (migrated 0 1 (new_TaskState (Taskid 0 0) 3) ex_master_sized)"
proof -
  have h1: "steal_guards 1 ex_master 1 0 (workers ex_master ! 0) (new_TaskState (Taskid 0 0) 1)"
    by code_simp
  have h2: "rd_table ex_run = Some \<lparr>id_table = 0, numShards = 2\<rparr>"
    by code_simp
  have h3: "0 < numShards \<lparr>id_table = 0, numShards = 2\<rparr>"
    by simp
  have h4: "numShards \<lparr>id_table = 0, numShards = 2\<rparr> < 2 ^ 31"
    by simp
  have h5: "0 \<noteq> (1::nat) \<and> distinct (map fst (tables ex_master)) \<and>
    shard_ids (tables ex_master) (shard (id_task (new_TaskState (Taskid 0 0) 1)))
      \<subseteq> shards (workers ex_master ! 0)"
    by code_simp
  have v1: "move_cost (new_TaskState (Taskid 0 0) 1) (Fin (1 / 2)) (Fin 1) = Fin 1"
    by (rule ex_move_cost_half)
  have v2: "eta (pending (workers ex_master ! 0)) (Fin (1 / 2)) (Fin 1) = Fin 2"
    unfolding ex_pending by (rule ex_eta_half)
  have v3: "move_cost (new_TaskState (Taskid 0 0) 1) (Fin 1) (Fin 1) = Fin 2"
    by (rule ex_move_cost_one)
  have v4: "eta (pending (workers ex_master ! 0)) (Fin 1) (Fin 1) = Fin 2"
    unfolding ex_pending by (rule ex_eta_one)
  note a = steal_work_decision [OF h1 h2 h3 h4, of "Fin (1 / 2)"]
  note b = steal_work_decision [OF h1 h2 h3 h4, of "Fin 1"]
  from a have c0: "average_size 2 = Fin 1" by simp
  from a h5 have mg: "migrate 0 1 (new_TaskState (Taskid 0 0) 1) ex_master =
      Ok True (migrated 0 1 (new_TaskState (Taskid 0 0) 1) ex_master)"
    by blast
  from a have "steal_work ex_run 1 (Fin (1 / 2)) ex_master =
       (if dgreater (eta (pending (workers ex_master ! 0)) (Fin (1 / 2)) (Fin 1))
             (move_cost (new_TaskState (Taskid 0 0) 1) (Fin (1 / 2)) (Fin 1))
        then migrate 0 1 (new_TaskState (Taskid 0 0) 1) ex_master else Ok False ex_master)"
    by blast
  then have c1: "steal_work ex_run 1 (Fin (1 / 2)) ex_master =
      Ok True (migrated 0 1 (new_TaskState (Taskid 0 0) 1) ex_master)"
    unfolding v1 v2 mg by (simp add: dgreater_def)
  from b have "steal_work ex_run 1 (Fin 1) ex_master =
       (if dgreater (eta (pending (workers ex_master ! 0)) (Fin 1) (Fin 1))
             (move_cost (new_TaskState (Taskid 0 0) 1) (Fin 1) (Fin 1))
        then migrate 0 1 (new_TaskState (Taskid 0 0) 1) ex_master else Ok False ex_master)"
    by blast
  then have c2: "steal_work ex_run 1 (Fin 1) ex_master = Ok False ex_master"
    unfolding v3 v4 by (simp add: dgreater_def)
  have g1: "steal_guards 1 ex_master_sized 1 0 (workers ex_master_sized ! 0)
      (new_TaskState (Taskid 0 0) 3)"
    by code_simp
  have g2: "rd_table ex_run_sized = Some \<lparr>id_table = 0, numShards = 4\<rparr>"
    by (simp add: ex_run_sized_def)
  have g3: "0 < numShards \<lparr>id_table = 0, numShards = 4\<rparr>" by simp
  have g4: "numShards \<lparr>id_table = 0, numShards = 4\<rparr> < 2 ^ 31" by simp
  have g5: "0 \<noteq> (1::nat) \<and> distinct (map fst (tables ex_master_sized)) \<and>
    shard_ids (tables ex_master_sized) (shard (id_task (new_TaskState (Taskid 0 0) 3)))
      \<subseteq> shards (workers ex_master_sized ! 0)"
    by code_simp
  have ps: "pending (workers ex_master_sized ! 0) = ex_sized" by code_simp
  have v5: "eta (pending (workers ex_master_sized ! 0)) (round_double (12 / 10)) (Fin 1) =
      Fin (8106479329266893 / 1125899906842624)"
    unfolding ps ex_literal by (rule ex_eta_sized)
  have v6: "move_cost (new_TaskState (Taskid 0 0) 3) (round_double (12 / 10)) (Fin 1) =
      Fin (2026619832316723 / 281474976710656)"
    unfolding ex_literal by (rule ex_move_cost_sized)
  note c = steal_work_decision [OF g1 g2 g3 g4, of "round_double (12 / 10)"]
  from c g5 have mg2: "migrate 0 1 (new_TaskState (Taskid 0 0) 3) ex_master_sized =
      Ok True (migrated 0 1 (new_TaskState (Taskid 0 0) 3) ex_master_sized)"
    by blast
  from c have "steal_work ex_run_sized 1 (round_double (12 / 10)) ex_master_sized =
       (if dgreater (eta (pending (workers ex_master_sized ! 0)) (round_double (12 / 10)) (Fin 1))
             (move_cost (new_TaskState (Taskid 0 0) 3) (round_double (12 / 10)) (Fin 1))
        then migrate 0 1 (new_TaskState (Taskid 0 0) 3) ex_master_sized
        else Ok False ex_master_sized)"
    by blast
  then have c3: "steal_work ex_run_sized 1 (round_double (12 / 10)) ex_master_sized =
      Ok True (migrated 0 1 (new_TaskState (Taskid 0 0) 3) ex_master_sized)"
    unfolding v5 v6 mg2 by (simp add: dgreater_def)
  from h1 h2 h3 h4 h5 c0 v1 v2 c1 v3 v4 c2 g1 v5 v6 c3 show ?thesis by blast
qed


text \<open>
  Claim C7 (one active task per worker). An epoch starts with \<^verbatim>\<open>assign_tasks\<close>; the
  master loop then reaps, steals and dispatches in any order (\<open>states\<close> lists the states
  it passes through, for any sequence of such events and any environment). In every
  such state each worker has at most one task with status \<^verbatim>\<open>ACTIVE\<close>. A call of
  \<^verbatim>\<open>dispatch_work\<close> that returns has, for each worker with a pending task and no
  active one, made exactly one of its pending tasks active (one more active, one less
  pending, as many finished), and has left the work map of every other worker as it
  was. When the shards of the epoch are distinct, an active task of a worker stays in
  that worker's work map across every step, unchanged or, at a reap, with status
  \<^verbatim>\<open>FINISHED\<close>.
\<close>

theorem one_active_task_per_worker:
  assumes "assign_tasks r shs m = Ok u m0"
  shows "\<forall>s\<in>set (states env evs m0).
     (\<forall>w\<in>set (workers s). num_active w \<le> 1) \<and>
     (\<forall>n s'. dispatch_work env (current_run s) s = Ok n s' \<longrightarrow>
        (\<forall>k<length (workers s).
           if 0 < num_pending (workers s ! k) \<and> num_active (workers s ! k) = 0
           then num_active (workers s' ! k) = 1 \<and>
                Suc (num_pending (workers s' ! k)) = num_pending (workers s ! k) \<and>
                num_finished (workers s' ! k) = num_finished (workers s ! k)
           else work (workers s' ! k) = work (workers s ! k))) \<and>
     (distinct shs \<longrightarrow>
        (\<forall>e s'. step env e s = Ok () s' \<longrightarrow>
           (\<forall>k<length (workers s). \<forall>t\<in>set (work (workers s ! k)). status t = ACTIVE \<longrightarrow>
              map_find (id_task t) (work (workers s' ! k)) = Some t \<or>
              (e = Reap \<and> map_find (id_task t) (work (workers s' ! k)) = Some (t\<lparr>status := FINISHED\<rparr>)))))"
proof
  fix s assume s: "s \<in> set (states env evs m0)"
  from assign_tasks_invariants[OF assms]
  have i0: "maps_sorted (works m0)" "one_active (works m0)" "distinct shs \<longrightarrow> maps_apart (works m0)"
    by auto
  have "\<forall>s\<in>set (states env evs m0). maps_sorted (works s)"
    by (rule states_preserve[where P = "\<lambda>m. maps_sorted (works m)"]) (rule i0(1), rule step_sorted)
  with s have so: "maps_sorted (works s)" by blast
  have "\<forall>s\<in>set (states env evs m0). one_active (works s)"
    by (rule states_preserve[where P = "\<lambda>m. one_active (works m)"]) (rule i0(2), rule step_one_active)
  with s have oa: "one_active (works s)" by blast
  have ap: "maps_apart (works s)" if "distinct shs"
  proof -
    from that i0(3) have a0: "maps_apart (works m0)" by simp
    have "\<forall>s\<in>set (states env evs m0). maps_apart (works s)"
      by (rule states_preserve[where P = "\<lambda>m. maps_apart (works m)"]) (rule a0, rule step_apart)
    with s show ?thesis by blast
  qed
  have 1: "\<forall>w\<in>set (workers s). num_active w \<le> 1"
    using oa by (auto simp: one_active_def num_active_def num_with_cnt)
  have 2: "\<forall>k<length (workers s).
           if 0 < num_pending (workers s ! k) \<and> num_active (workers s ! k) = 0
           then num_active (workers s' ! k) = 1 \<and>
                Suc (num_pending (workers s' ! k)) = num_pending (workers s ! k) \<and>
                num_finished (workers s' ! k) = num_finished (workers s ! k)
           else work (workers s' ! k) = work (workers s ! k)"
    if d: "dispatch_work env (current_run s) s = Ok n s'" for n s'
  proof (intro allI impI)
    fix k assume k: "k < length (workers s)"
    from dispatch_work_works[OF d] have w: "works s' = map dispatched_work (workers s)" .
    then have "length (works s') = length (map dispatched_work (workers s))" by (rule arg_cong)
    then have k': "k < length (workers s')" using k by simp
    have wk: "work (workers s' ! k) = dispatched_work (workers s ! k)"
    proof -
      have "work (workers s' ! k) = works s' ! k" using k' by simp
      also have "\<dots> = dispatched_work (workers s ! k)" using w k by simp
      finally show ?thesis .
    qed
    have sk: "sorted_wrt taskid_less (map id_task (work (workers s ! k)))"
      using maps_sorted_nth[OF so, of k] k by simp
    show "if 0 < num_pending (workers s ! k) \<and> num_active (workers s ! k) = 0
           then num_active (workers s' ! k) = 1 \<and>
                Suc (num_pending (workers s' ! k)) = num_pending (workers s ! k) \<and>
                num_finished (workers s' ! k) = num_finished (workers s ! k)
           else work (workers s' ! k) = work (workers s ! k)"
    proof (cases "0 < num_pending (workers s ! k) \<and> num_active (workers s ! k) = 0")
      case True
      with dispatched_work_counts[OF sk] wk show ?thesis
        by (simp add: num_active_def num_pending_def num_finished_def num_with_cnt)
    next
      case False
      then have "dispatched_work (workers s ! k) = work (workers s ! k)"
        by (auto simp: dispatched_work_def)
      with False wk show ?thesis by auto
    qed
  qed
  have 3: "\<forall>k<length (workers s). \<forall>t\<in>set (work (workers s ! k)). status t = ACTIVE \<longrightarrow>
              map_find (id_task t) (work (workers s' ! k)) = Some t \<or>
              (e = Reap \<and> map_find (id_task t) (work (workers s' ! k)) = Some (t\<lparr>status := FINISHED\<rparr>))"
    if "distinct shs" and st: "step env e s = Ok () s'" for e s'
    using step_keeps_active[OF st so ap[OF that(1)]] by blast
  from 1 2 3 show "(\<forall>w\<in>set (workers s). num_active w \<le> 1) \<and>
     (\<forall>n s'. dispatch_work env (current_run s) s = Ok n s' \<longrightarrow>
        (\<forall>k<length (workers s).
           if 0 < num_pending (workers s ! k) \<and> num_active (workers s ! k) = 0
           then num_active (workers s' ! k) = 1 \<and>
                Suc (num_pending (workers s' ! k)) = num_pending (workers s ! k) \<and>
                num_finished (workers s' ! k) = num_finished (workers s ! k)
           else work (workers s' ! k) = work (workers s ! k))) \<and>
     (distinct shs \<longrightarrow>
        (\<forall>e s'. step env e s = Ok () s' \<longrightarrow>
           (\<forall>k<length (workers s). \<forall>t\<in>set (work (workers s ! k)). status t = ACTIVE \<longrightarrow>
              map_find (id_task t) (work (workers s' ! k)) = Some t \<or>
              (e = Reap \<and> map_find (id_task t) (work (workers s' ! k)) = Some (t\<lparr>status := FINISHED\<rparr>)))))"
    by blast
qed

theorem one_active_task_per_worker_witness:
  "assign_tasks ex_run [0, 1] ex_master = Ok () ex_epoch \<and> distinct [0, 1 :: int] \<and>
   step ex_env_done Dispatch ex_epoch = Ok () ex_dispatched \<and>
   step ex_env_done Reap ex_dispatched = Ok () ex_reaped \<and>
   num_active (workers ex_epoch ! 0) = 0 \<and> num_pending (workers ex_epoch ! 0) = 2 \<and>
   num_active (workers ex_dispatched ! 0) = 1 \<and> num_pending (workers ex_dispatched ! 0) = 1 \<and>
   num_finished (workers ex_dispatched ! 0) = num_finished (workers ex_epoch ! 0) \<and>
   work (workers ex_dispatched ! 1) = work (workers ex_epoch ! 1) \<and>
   num_active (workers ex_reaped ! 0) \<le> 1 \<and>
   map_find (Taskid 0 0) (work (workers ex_reaped ! 0)) =
     Some ((new_TaskState (Taskid 0 0) 1)\<lparr>status := FINISHED\<rparr>)"
proof -
  have "returned (assign_tasks ex_run [0, 1] ex_master) = Some ()" by code_simp
  then have h0: "assign_tasks ex_run [0, 1] ex_master = Ok () ex_epoch"
    unfolding ex_epoch_def by (rule returned_Some)
  have cr: "current_run ex_epoch = ex_run" by code_simp
  have "returned (dispatch_work ex_env_done ex_run ex_epoch) = Some 1" by code_simp
  then have h1: "dispatch_work ex_env_done ex_run ex_epoch = Ok 1 ex_dispatched"
    unfolding ex_dispatched_def by (rule returned_Some)
  then have s1: "step ex_env_done Dispatch ex_epoch = Ok () ex_dispatched"
    by (simp add: step_def rbind_def cr)
  have "returned (reap_one_task ex_env_done ex_dispatched) = Some 0" by code_simp
  then have "reap_one_task ex_env_done ex_dispatched = Ok 0 ex_reaped"
    unfolding ex_reaped_def by (rule returned_Some)
  then have s2: "step ex_env_done Reap ex_dispatched = Ok () ex_reaped"
    by (simp add: step_def rbind_def)
  have st: "states ex_env_done [Dispatch, Reap] ex_epoch = [ex_epoch, ex_dispatched, ex_reaped]"
    by (simp add: s1 s2)
  have len: "length (workers ex_epoch) = 2" "length (workers ex_dispatched) = 2"
    "length (workers ex_reaped) = 2"
    by code_simp+
  have p0: "0 < num_pending (workers ex_epoch ! 0) \<and> num_active (workers ex_epoch ! 0) = 0"
    "\<not> (0 < num_pending (workers ex_epoch ! 1) \<and> num_active (workers ex_epoch ! 1) = 0)"
    "num_pending (workers ex_epoch ! 0) = 2"
    by code_simp+
  have act: "work (workers ex_dispatched ! 0) =
      [(new_TaskState (Taskid 0 0) 1)\<lparr>status := ACTIVE\<rparr>, new_TaskState (Taskid 0 1) 1]"
    by code_simp
  note inst = one_active_task_per_worker [OF h0, of ex_env_done "[Dispatch, Reap]", unfolded st]
  from inst have a: "\<forall>w\<in>set (workers ex_reaped). num_active w \<le> 1" by simp
  have "workers ex_reaped ! 0 \<in> set (workers ex_reaped)" using len(3) by simp
  with a have c1: "num_active (workers ex_reaped ! 0) \<le> 1" by blast
  from inst h1 cr have b: "\<forall>k<length (workers ex_epoch).
      if 0 < num_pending (workers ex_epoch ! k) \<and> num_active (workers ex_epoch ! k) = 0
      then num_active (workers ex_dispatched ! k) = 1 \<and>
           Suc (num_pending (workers ex_dispatched ! k)) = num_pending (workers ex_epoch ! k) \<and>
           num_finished (workers ex_dispatched ! k) = num_finished (workers ex_epoch ! k)
      else work (workers ex_dispatched ! k) = work (workers ex_epoch ! k)"
    by simp
  from b[rule_format, of 0] p0(1,3) len(1)
  have c2: "num_active (workers ex_dispatched ! 0) = 1 \<and>
      num_pending (workers ex_dispatched ! 0) = 1 \<and>
      num_finished (workers ex_dispatched ! 0) = num_finished (workers ex_epoch ! 0)"
    by (simp split: if_splits)
  from b[rule_format, of 1] p0(2) len(1)
  have c3: "work (workers ex_dispatched ! 1) = work (workers ex_epoch ! 1)"
    by (simp split: if_splits)
  from inst have c: "\<forall>e s'. step ex_env_done e ex_dispatched = Ok () s' \<longrightarrow>
      (\<forall>k<length (workers ex_dispatched).
        \<forall>t\<in>set (work (workers ex_dispatched ! k)). status t = ACTIVE \<longrightarrow>
          map_find (id_task t) (work (workers s' ! k)) = Some t \<or>
          (e = Reap \<and> map_find (id_task t) (work (workers s' ! k)) =
             Some (t\<lparr>status := FINISHED\<rparr>)))"
    by simp
  have nf: "map_find (Taskid 0 0) (work (workers ex_reaped ! 0)) \<noteq>
      Some ((new_TaskState (Taskid 0 0) 1)\<lparr>status := ACTIVE\<rparr>)"
    by code_simp
  from c[rule_format, OF s2, of 0 "(new_TaskState (Taskid 0 0) 1)\<lparr>status := ACTIVE\<rparr>"] len(2) act nf
  have c4: "map_find (Taskid 0 0) (work (workers ex_reaped ! 0)) =
     Some ((new_TaskState (Taskid 0 0) 1)\<lparr>status := FINISHED\<rparr>)"
    by (simp add: new_TaskState_def)
  from h0 s1 s2 p0 c1 c2 c3 c4 show ?thesis by simp
qed


text \<open>
  Claim C8 (a task is stolen at most once). In an epoch started by \<^verbatim>\<open>assign_tasks\<close>
  on distinct shards, along any sequence of reaps, steals and dispatches: a step never
  clears a stolen flag (the ids of the stolen tasks only grow); a call of
  \<^verbatim>\<open>steal_work\<close> that returns true has migrated the task it selected, whose stolen
  flag was not set before the call and is set after it; and no task id occurs twice
  among the migrations of the epoch.
\<close>

theorem stolen_task_migrated_once:
  assumes "assign_tasks r shs m = Ok u m0" "distinct shs"
  shows "distinct (migrations env evs m0) \<and>
    (\<forall>s\<in>set (states env evs m0). \<forall>e s'. step env e s = Ok () s' \<longrightarrow>
        stolen_ids s \<subseteq> stolen_ids s' \<and>
        (\<forall>idle avg. e = Steal idle avg \<and> steal_work (current_run s) idle avg s = Ok True s' \<longrightarrow>
           (\<exists>task. steal_candidate s = Some task \<and> \<not> stolen task \<and>
              id_task task \<notin> stolen_ids s \<and> id_task task \<in> stolen_ids s' \<and>
              migrated_id e s = [id_task task])))"
proof -
  from assign_tasks_invariants[OF assms(1)] assms(2)
  have so0: "maps_sorted (works m0)" and ap0: "maps_apart (works m0)" by auto
  from migrations_distinct[OF so0 ap0] have 1: "distinct (migrations env evs m0)" by simp
  have 2: "stolen_ids s \<subseteq> stolen_ids s' \<and>
        (\<forall>idle avg. e = Steal idle avg \<and> steal_work (current_run s) idle avg s = Ok True s' \<longrightarrow>
           (\<exists>task. steal_candidate s = Some task \<and> \<not> stolen task \<and>
              id_task task \<notin> stolen_ids s \<and> id_task task \<in> stolen_ids s' \<and>
              migrated_id e s = [id_task task]))"
    if s: "s \<in> set (states env evs m0)" and st: "step env e s = Ok () s'" for s e s'
  proof -
    have "\<forall>s\<in>set (states env evs m0). maps_sorted (works s)"
      by (rule states_preserve[where P = "\<lambda>m. maps_sorted (works m)"]) (rule so0, rule step_sorted)
    with s have so: "maps_sorted (works s)" by blast
    have "\<forall>s\<in>set (states env evs m0). maps_apart (works s)"
      by (rule states_preserve[where P = "\<lambda>m. maps_apart (works m)"]) (rule ap0, rule step_apart)
    with s have ap: "maps_apart (works s)" by blast
    have a: "stolen_ids s \<subseteq> stolen_ids s'" by (rule step_stolen_mono[OF st])
    have b: "\<exists>task. steal_candidate s = Some task \<and> \<not> stolen task \<and>
              id_task task \<notin> stolen_ids s \<and> id_task task \<in> stolen_ids s' \<and>
              migrated_id e s = [id_task task]"
      if e: "e = Steal idle avg" and w: "steal_work (current_run s) idle avg s = Ok True s'"
      for idle avg
    proof -
      from steal_work_works[OF w] obtain d s0 src task where
        g: "steal_guards idle s d s0 src task" "works s' = moved s0 d task (works s)" by blast
      note c = steal_guards_candidate[OF g(1)]
      from c e w have "migrated_id e s = [id_task task]" by (simp add: migrated_id_def)
      with c steal_guards_fresh[OF g(1) so ap] steal_guards_marks[OF g] show ?thesis by blast
    qed
    from a b show ?thesis by blast
  qed
  from 1 2 show ?thesis by blast
qed

theorem stolen_task_migrated_once_witness:
  "assign_tasks ex_run [0, 1] ex_master = Ok () ex_epoch \<and> distinct [0, 1 :: int] \<and>
   steal_work ex_run 1 (Fin (1 / 2)) ex_epoch = Ok True ex_stolen \<and>
   step ex_env (Steal 1 (Fin (1 / 2))) ex_epoch = Ok () ex_stolen \<and>
   migrations ex_env [Steal 1 (Fin (1 / 2)), Steal 1 (Fin (1 / 2))] ex_epoch = [Taskid 0 0] \<and>
   distinct (migrations ex_env [Steal 1 (Fin (1 / 2)), Steal 1 (Fin (1 / 2))] ex_epoch) \<and>
   stolen_ids ex_epoch \<subseteq> stolen_ids ex_stolen \<and>
   (\<exists>task. steal_candidate ex_epoch = Some task \<and> \<not> stolen task \<and>
      id_task task \<notin> stolen_ids ex_epoch \<and> id_task task \<in> stolen_ids ex_stolen \<and>
      migrated_id (Steal 1 (Fin (1 / 2))) ex_epoch = [id_task task])"
proof -
  have "returned (assign_tasks ex_run [0, 1] ex_master) = Some ()" by code_simp
  then have h0: "assign_tasks ex_run [0, 1] ex_master = Ok () ex_epoch"
    unfolding ex_epoch_def by (rule returned_Some)
  have h1: "distinct [0, 1 :: int]" by simp
  have cr: "current_run ex_epoch = ex_run" by code_simp
  have w: "steal_work ex_run 1 (Fin (1 / 2)) ex_epoch = Ok True ex_stolen"
    by (simp add: ex_epoch_steal ex_stolen_migrated)
  then have s1: "step ex_env (Steal 1 (Fin (1 / 2))) ex_epoch = Ok () ex_stolen"
    by (simp add: step_def rbind_def cr)
  have "current_run (migrated 0 1 (new_TaskState (Taskid 0 0) 1) ex_epoch) = ex_run"
    by code_simp
  then have cr2: "current_run ex_stolen = ex_run" by (simp add: ex_stolen_migrated)
  have s2: "step ex_env (Steal 1 (Fin (1 / 2))) ex_stolen = Ok () ex_stolen"
    by (simp add: step_def rbind_def cr2 ex_stolen_steal)
  have sc: "steal_candidate ex_epoch = Some (new_TaskState (Taskid 0 0) 1)"
    by code_simp
  have i1: "migrated_id (Steal 1 (Fin (1 / 2))) ex_epoch = [Taskid 0 0]"
    by (simp add: migrated_id_def cr w sc new_TaskState_def)
  have i2: "migrated_id (Steal 1 (Fin (1 / 2))) ex_stolen = []"
    by (simp add: migrated_id_def cr2 ex_stolen_steal)
  have mg: "migrations ex_env [Steal 1 (Fin (1 / 2)), Steal 1 (Fin (1 / 2))] ex_epoch = [Taskid 0 0]"
    by (simp add: s1 s2 i1 i2)
  have mem: "ex_epoch \<in> set (states ex_env [Steal 1 (Fin (1 / 2)), Steal 1 (Fin (1 / 2))] ex_epoch)"
    by simp
  note inst = stolen_task_migrated_once [OF h0 h1, of ex_env
      "[Steal 1 (Fin (1 / 2)), Steal 1 (Fin (1 / 2))]"]
  from inst have a: "distinct (migrations ex_env [Steal 1 (Fin (1 / 2)), Steal 1 (Fin (1 / 2))] ex_epoch)"
    by (rule conjunct1)
  from inst have "\<forall>s\<in>set (states ex_env [Steal 1 (Fin (1 / 2)), Steal 1 (Fin (1 / 2))] ex_epoch).
      \<forall>e s'. step ex_env e s = Ok () s' \<longrightarrow>
        stolen_ids s \<subseteq> stolen_ids s' \<and>
        (\<forall>idle avg. e = Steal idle avg \<and> steal_work (current_run s) idle avg s = Ok True s' \<longrightarrow>
           (\<exists>task. steal_candidate s = Some task \<and> \<not> stolen task \<and>
              id_task task \<notin> stolen_ids s \<and> id_task task \<in> stolen_ids s' \<and>
              migrated_id e s = [id_task task]))"
    by (rule conjunct2)
  from this[rule_format, OF mem s1] w cr
  have b: "stolen_ids ex_epoch \<subseteq> stolen_ids ex_stolen \<and>
     (\<exists>task. steal_candidate ex_epoch = Some task \<and> \<not> stolen task \<and>
      id_task task \<notin> stolen_ids ex_epoch \<and> id_task task \<in> stolen_ids ex_stolen \<and>
      migrated_id (Steal 1 (Fin (1 / 2))) ex_epoch = [id_task task])"
    by simp
  from h0 h1 w s1 mg a b show ?thesis by blast
qed


text \<open>
  Claim C9 (precondition abort). When the run descriptor has a null table, names a
  kernel that is not registered, or names a method its kernel does not have,
  \<open>run\<close> aborts, and the state at the abort has the workers (their work maps and
  shard sets) and the sent messages of the state \<open>run\<close> was called in: no
  \<^verbatim>\<open>RUN_KERNEL\<close> has been sent.
\<close>

theorem run_precondition_abort:
  assumes "rd_table r = None \<or> kernels m (rd_kernel r) = None \<or>
           (\<exists>ms. kernels m (rd_kernel r) = Some ms \<and> rd_method r \<notin> set ms)"
  shows "\<exists>e m'. run fuel env r m = Aborted e m' \<and> workers m' = workers m \<and> sent m' = sent m"
  using assms by (auto simp: run_def Let_def split: option.splits)

theorem run_precondition_abort_witness:
  "kernels (ex_master\<lparr>finished := 2\<rparr>) (rd_kernel (ex_run\<lparr>rd_method := ''walk''\<rparr>)) = Some [''run''] \<and>
   rd_method (ex_run\<lparr>rd_method := ''walk''\<rparr>) \<notin> set [''run''] \<and>
   (\<exists>e m'. run 5 ex_env (ex_run\<lparr>rd_method := ''walk''\<rparr>) (ex_master\<lparr>finished := 2\<rparr>) = Aborted e m' \<and>
      workers m' = workers (ex_master\<lparr>finished := 2\<rparr>) \<and> sent m' = sent (ex_master\<lparr>finished := 2\<rparr>))"
  using run_precondition_abort [of "ex_run\<lparr>rd_method := ''walk''\<rparr>" "ex_master\<lparr>finished := 2\<rparr>" 5 ex_env]
  by (simp add: ex_master_def ex_run_def)

text \<open>
  Claim C10 (atomicity of a steal). The claim is for every call, and \<^verbatim>\<open>steal_work\<close>
  does not compare the idle worker with the source. Called for the worker that has the
  most pending tasks, it returns true with the task still in the work map of that
  worker, its stolen flag set, and with the task ids of its shard erased from the
  shards of the worker: \<^verbatim>\<open>assign_shard(shard, true)\<close> and then
  \<^verbatim>\<open>assign_shard(shard, false)\<close> run on the same worker, and so do
  \<^verbatim>\<open>remove_task\<close> and \<^verbatim>\<open>assign_task\<close>. No worker owns the shard after the call.
\<close>

theorem self_steal_counterexample:
  "num_pending (workers ex_master ! 0) = 2 \<and>
   shards (workers ex_master ! 0) = {Taskid 0 0, Taskid 0 1, Taskid 1 0} \<and>
   returned (steal_work ex_run 0 (Fin (1 / 2)) ex_master) = Some True \<and>
   work (workers (state_of (steal_work ex_run 0 (Fin (1 / 2)) ex_master)) ! 0) =
     [(new_TaskState (Taskid 0 0) 1)\<lparr>stolen := True\<rparr>, new_TaskState (Taskid 0 1) 1] \<and>
   work (workers (state_of (steal_work ex_run 0 (Fin (1 / 2)) ex_master)) ! 1) = [] \<and>
   shards (workers (state_of (steal_work ex_run 0 (Fin (1 / 2)) ex_master)) ! 0) = {Taskid 0 1} \<and>
   shards (workers (state_of (steal_work ex_run 0 (Fin (1 / 2)) ex_master)) ! 1) = {}"
  unfolding ex_steal_self by code_simp

text \<open>
  Claim C10 as amended, for the calls \<^verbatim>\<open>barrier\<close> makes, which are for a worker
  without a pending task: a call of \<^verbatim>\<open>steal_work\<close> that returns false returns in the
  state it was called in; a call for an idle worker that returns true returns in the
  state \<open>migrated\<close>: the stolen flag set, the ownership moved between the shard sets,
  the task moved between the work maps. The call returns whenever its operations are
  defined: the idle worker is in the vector, the table of the run is not null, and the
  source owns the shard of each of its tasks in every table that has it.
\<close>

theorem steal_work_atomic:
  "(steal_work r idle_worker avg m = Ok False m' \<longrightarrow> m' = m) \<and>
   (steal_work r idle_worker avg m = Ok True m' \<and> num_pending (workers m ! nat idle_worker) = 0 \<longrightarrow>
      (\<exists>s src task. steal_guards idle_worker m (nat idle_worker) s src task \<and> s \<noteq> nat idle_worker \<and>
         m' = migrated s (nat idle_worker) task m)) \<and>
   (at_index (workers m) idle_worker \<noteq> None \<and> rd_table r \<noteq> None \<and>
    distinct (map fst (tables m)) \<and> serves_own_tasks m \<and>
    num_pending (workers m ! nat idle_worker) = 0 \<longrightarrow>
      is_Ok (steal_work r idle_worker avg m))"
proof -
  have 1: "m' = m" if "steal_work r idle_worker avg m = Ok False m'"
    using steal_work_Ok[OF that] by simp
  have 2: "\<exists>s src task. steal_guards idle_worker m (nat idle_worker) s src task \<and> s \<noteq> nat idle_worker \<and>
         m' = migrated s (nat idle_worker) task m"
    if "steal_work r idle_worker avg m = Ok True m'" "num_pending (workers m ! nat idle_worker) = 0"
    using steal_work_True_idle[OF that] .
  have 3: "is_Ok (steal_work r idle_worker avg m)"
    if "at_index (workers m) idle_worker \<noteq> None" "rd_table r \<noteq> None"
      "distinct (map fst (tables m))" "serves_own_tasks m"
      "num_pending (workers m ! nat idle_worker) = 0"
    using steal_work_returns[OF that] .
  from 1 2 3 show ?thesis by blast
qed

theorem steal_work_atomic_witness:
  "steal_work ex_run 1 (Fin 1) ex_master = Ok False ex_master \<and>
   (at_index (workers ex_master) 1 \<noteq> None \<and> rd_table ex_run \<noteq> None \<and>
    distinct (map fst (tables ex_master)) \<and> serves_own_tasks ex_master \<and>
    num_pending (workers ex_master ! nat 1) = 0) \<and>
   is_Ok (steal_work ex_run 1 (Fin (1 / 2)) ex_master) \<and>
   steal_work ex_run 1 (Fin (1 / 2)) ex_master =
     Ok True (state_of (steal_work ex_run 1 (Fin (1 / 2)) ex_master)) \<and>
   (\<exists>s src task. steal_guards 1 ex_master (nat 1) s src task \<and> s \<noteq> nat 1 \<and>
      state_of (steal_work ex_run 1 (Fin (1 / 2)) ex_master) = migrated s (nat 1) task ex_master)"
proof -
  have "returned (steal_work ex_run 1 (Fin 1) ex_master) = Some False"
    unfolding ex_steal_one by simp
  then have h0: "steal_work ex_run 1 (Fin 1) ex_master =
      Ok False (state_of (steal_work ex_run 1 (Fin 1) ex_master))"
    by (rule returned_Some)
  have "returned (steal_work ex_run 1 (Fin (1 / 2)) ex_master) = Some True"
    unfolding ex_steal_half by simp
  then have h1: "steal_work ex_run 1 (Fin (1 / 2)) ex_master =
      Ok True (state_of (steal_work ex_run 1 (Fin (1 / 2)) ex_master))"
    by (rule returned_Some)
  have h2: "at_index (workers ex_master) 1 \<noteq> None \<and> rd_table ex_run \<noteq> None \<and>
    distinct (map fst (tables ex_master)) \<and> serves_own_tasks ex_master \<and>
    num_pending (workers ex_master ! nat 1) = 0"
    by code_simp
  from steal_work_atomic [of ex_run 1 "Fin 1" ex_master
      "state_of (steal_work ex_run 1 (Fin 1) ex_master)"] h0
  have a: "steal_work ex_run 1 (Fin 1) ex_master = Ok False ex_master" by simp
  from steal_work_atomic [of ex_run 1 "Fin (1 / 2)" ex_master
      "state_of (steal_work ex_run 1 (Fin (1 / 2)) ex_master)"] h1 h2 a
  show ?thesis by blast
qed

end
